theory Spec2Isabelle
  imports Main "HOL-Library.Word" "HOL-Library.Sublist"
begin

section \<open>The pigeon VM runtime: data model\<close>

text \<open>
  The development embeds the VM runtime that the generator ships as static code
  (err.go, matchers.go, ops.go, parser.go, pub.go, stacks.go, vm.go) and the instruction
  blocks of the generator tests (\<open>encodeMatcher\<close>, \<open>encodeChoice\<close>, \<open>encodeRepetition\<close>, ...).

  Conventions.
  \<^item> A rune (\<open>int32\<close>) is an \<open>int\<close>; a byte is a \<open>char\<close>; \<open>[]byte\<close> is \<open>char list\<close>.
  \<^item> \<open>uint16\<close> (program counter, instruction arguments, I stack entries) is \<open>16 word\<close>.
  \<^item> Go's \<open>int\<close> (line, column, offset, width, counters) is \<open>int\<close>.
  \<^item> Functions of the Go standard library (\<open>utf8.DecodeRune\<close>, \<open>unicode.ToLower\<close>,
    \<open>unicode.Is\<close>, \<open>fmt.Sprintf\<close>) are not part of the repository; they are the fields of
    a record \<open>lib\<close> that every operation takes as its first argument.
  \<^item> A panic is a value: every operation that can panic returns the panic together with
    the state at the moment of the panic.
  \<^item> The debug option only writes to standard error; its output is not modelled.
\<close>

type_synonym rune = int
type_synonym bytes = "char list"
type_synonym rangeTable = string

definition RuneError :: rune where
  "RuneError = 65533"

record position =
  line :: int
  col :: int
  offset :: int

text \<open>\<open>svpt\<close> embeds a position; the embedded struct is the field \<open>position\<close>.\<close>

record svpt =
  position :: position
  rn :: rune
  w :: int

record current =
  cur_pos :: position
  cur_text :: bytes

record parser =
  data :: bytes
  pt :: svpt

subsection \<open>Matchers\<close>

text \<open>
  The value of a string matcher is kept as the list of runes that
  \<open>for _, want := range s.value\<close> iterates over. A Unicode class is the name of its
  range table.
\<close>

datatype matcher =
  AnyMatcher
  | StringMatcher (s_ignoreCase: bool) (s_value: "rune list")
  | CharClassMatcher (c_chars: "rune list") (c_ranges: "rune list")
      (c_classes: "rangeTable list") (c_ignoreCase: bool) (c_inverted: bool)

subsection \<open>Errors and panics\<close>

record ffp =
  ffp_pos :: position
  ffp_ruleNmIx :: int
  ffp_rn :: rune
  ffp_want :: string

datatype op =
  opExit | opCall | opCallA | opCallB | opCumulOrF | opJump | opJumpIfF | opJumpIfT
  | opMatch | opNilIfF | opNilIfT | opPop | opPopVJumpIfF | opPush | opRestore
  | opRestoreIfF | opReturn | opStoreIfT | opTakeLOrJump | opPlaceholder

text \<open>
  Values given to \<open>panic\<close> that are not errors: the messages the VM formats itself, and
  whatever a thunk panics with.
\<close>

datatype pval =
  InvalidArgument op "16 word"
  | InvalidVStackArgument op "16 word"
  | InvalidValueType op
  | UnknownOpcode op
  | UserValue string

text \<open>
  Error values: the two package variables, a farthest failure position (\<open>ffp\<close>
  implements \<open>error\<close>), an error made by user code (known by its message), a run-time
  error of Go (index or slice out of range), and \<open>fmt.Errorf("%v", e)\<close> of a recovered
  panic value.
\<close>

datatype err =
  errInvalidEncoding
  | errNoMatch
  | ErrFfp ffp
  | ErrUser string
  | ErrRuntime
  | Errorf pval

datatype panic = PanicErr err | PanicVal pval

record parserError =
  Inner :: err
  pe_prefix :: string

type_synonym errList = "parserError list"

subsection \<open>The standard library, as parameters\<close>

record lib =
  decodeRune :: "bytes \<Rightarrow> rune \<times> nat"
  toLower :: "rune \<Rightarrow> rune"
  unicodeIs :: "rangeTable \<Rightarrow> rune \<Rightarrow> bool"
  fmtPos :: "position \<Rightarrow> string"
  fmtMatcher :: "matcher \<Rightarrow> string"
  fmtExpected :: "string \<Rightarrow> rune \<Rightarrow> string"
  fmtPval :: "pval \<Rightarrow> string"
  runtimeMsg :: string

text \<open>\<open>Error()\<close> of an error value and of a \<open>parserError\<close>.\<close>

fun err_Error :: "lib \<Rightarrow> err \<Rightarrow> string" where
  "err_Error lb errInvalidEncoding = ''invalid encoding''"
| "err_Error lb errNoMatch = ''no match found''"
| "err_Error lb (ErrFfp f) = fmtExpected lb (ffp_want f) (ffp_rn f)"
| "err_Error lb (ErrUser m) = m"
| "err_Error lb ErrRuntime = runtimeMsg lb"
| "err_Error lb (Errorf x) = fmtPval lb x"

definition Error :: "lib \<Rightarrow> parserError \<Rightarrow> string" where
  "Error lb p = pe_prefix p @ '': '' @ err_Error lb (Inner p)"

subsection \<open>err.go: the error list\<close>

text \<open>\<open>add\<close>: a nil error is not added.\<close>

definition errList_add :: "errList \<Rightarrow> parserError option \<Rightarrow> errList" where
  "errList_add e x = (case x of None \<Rightarrow> e | Some pe \<Rightarrow> e @ [pe])"

text \<open>
  \<open>dedupe\<close>: the loop over the list, with the set of messages seen so far and the
  cleaned list built so far.
\<close>

fun dedupe_loop :: "('e \<Rightarrow> string) \<Rightarrow> string set \<Rightarrow> 'e list \<Rightarrow> 'e list \<Rightarrow> 'e list" where
  "dedupe_loop msg seen cleaned [] = cleaned"
| "dedupe_loop msg seen cleaned (x # xs) =
     (if msg x \<in> seen then dedupe_loop msg seen cleaned xs
      else dedupe_loop msg (insert (msg x) seen) (cleaned @ [x]) xs)"

definition dedupe :: "('e \<Rightarrow> string) \<Rightarrow> 'e list \<Rightarrow> 'e list" where
  "dedupe msg e = dedupe_loop msg {} [] e"

text \<open>\<open>err\<close>: nil (\<open>None\<close>) for the empty list, else the deduplicated list.\<close>

definition errList_err :: "lib \<Rightarrow> errList \<Rightarrow> errList option" where
  "errList_err lb e = (if length e = 0 then None else Some (dedupe (Error lb) e))"

subsection \<open>parser.go: the cursor\<close>

datatype 'a result = Done 'a | Raise panic

definition peek :: "parser \<Rightarrow> svpt" where
  "peek p = pt p"

text \<open>
  \<open>read\<close>: the offset advances by the width of the current rune, the next rune is decoded
  from \<open>data[offset:]\<close> (a slice expression that panics beyond the length), and line and
  column are updated. An error rune of non-zero width panics with \<open>errInvalidEncoding\<close>,
  after the offset, rune and width have been written.
\<close>

definition read :: "lib \<Rightarrow> parser \<Rightarrow> unit result \<times> parser" where
  "read lb p =
     (let off = offset (position (pt p)) + w (pt p);
          p1 = p\<lparr>pt := (pt p)\<lparr>position := (position (pt p))\<lparr>offset := off\<rparr>\<rparr>\<rparr>
      in if off < 0 \<or> int (length (data p)) < off then (Raise (PanicErr ErrRuntime), p1)
         else
           (let (r, n) = decodeRune lb (drop (nat off) (data p));
                p2 = p1\<lparr>pt := (pt p1)\<lparr>rn := r, w := int n\<rparr>\<rparr>
            in if r = RuneError then
                 (if 0 < n then (Raise (PanicErr errInvalidEncoding), p2) else (Done (), p2))
               else
                 (let pos2 = position (pt p2);
                      pos3 = pos2\<lparr>col := col pos2 + 1\<rparr>;
                      pos4 = (if r = 10 then pos3\<lparr>line := line pos3 + 1, col := 0\<rparr> else pos3)
                  in (Done (), p2\<lparr>pt := (pt p2)\<lparr>position := pos4\<rparr>\<rparr>))))"

text \<open>\<open>sliceFrom\<close>: \<open>data[start.offset:pt.offset]\<close>, which panics on bad bounds.\<close>

definition sliceFrom :: "parser \<Rightarrow> svpt \<Rightarrow> bytes option" where
  "sliceFrom p start =
     (let lo = offset (position start); hi = offset (position (pt p))
      in if 0 \<le> lo \<and> lo \<le> hi \<and> hi \<le> int (length (data p))
         then Some (take (nat hi - nat lo) (drop (nat lo) (data p)))
         else None)"

subsection \<open>matchers.go\<close>

text \<open>\<open>anyMatcher.match\<close>: peek, read, and compare the peeked rune with the error rune.\<close>

definition match_any :: "lib \<Rightarrow> parser \<Rightarrow> bool result \<times> parser" where
  "match_any lb p =
     (let pt0 = peek p in
      case read lb p of
        (Raise e, p') \<Rightarrow> (Raise e, p')
      | (Done _, p') \<Rightarrow> (Done (rn pt0 \<noteq> RuneError), p'))"

text \<open>\<open>stringMatcher.match\<close>: one iteration of the loop per rune of the value.\<close>

fun match_string :: "lib \<Rightarrow> bool \<Rightarrow> rune list \<Rightarrow> parser \<Rightarrow> bool result \<times> parser" where
  "match_string lb ic [] p = (Done True, p)"
| "match_string lb ic (want # rest) p =
     (let r0 = rn (peek p);
          r = (if ic then toLower lb r0 else r0)
      in if r \<noteq> want then (Done False, p)
         else (case read lb p of
                 (Raise e, p') \<Rightarrow> (Raise e, p')
               | (Done _, p') \<Rightarrow> match_string lb ic rest p'))"

text \<open>
  \<open>charClassMatcher.match\<close>. The loop over the ranges steps by two and reads
  \<open>ranges[i+1]\<close>: a list of odd length panics at its last element.
\<close>

fun in_ranges :: "rune \<Rightarrow> rune list \<Rightarrow> bool option" where
  "in_ranges r [] = Some False"
| "in_ranges r [lo] = (if lo \<le> r then None else Some False)"
| "in_ranges r (lo # hi # rest) = (if lo \<le> r \<and> r \<le> hi then Some True else in_ranges r rest)"

definition match_charClass ::
  "lib \<Rightarrow> rune list \<Rightarrow> rune list \<Rightarrow> rangeTable list \<Rightarrow> bool \<Rightarrow> bool \<Rightarrow> parser
     \<Rightarrow> bool result \<times> parser" where
  "match_charClass lb chars ranges classes ic invd p =
     (let pt0 = peek p in
      case read lb p of
        (Raise e, p') \<Rightarrow> (Raise e, p')
      | (Done _, p') \<Rightarrow>
          (let r = (if ic then toLower lb (rn pt0) else rn pt0)
           in if r \<in> set chars then (Done (\<not> invd), p')
              else (case in_ranges r ranges of
                      None \<Rightarrow> (Raise (PanicErr ErrRuntime), p')
                    | Some True \<Rightarrow> (Done (\<not> invd), p')
                    | Some False \<Rightarrow>
                        (if (\<exists>cl \<in> set classes. unicodeIs lb cl r) then (Done (\<not> invd), p')
                         else (Done invd, p')))))"

fun match :: "lib \<Rightarrow> matcher \<Rightarrow> parser \<Rightarrow> bool result \<times> parser" where
  "match lb AnyMatcher p = match_any lb p"
| "match lb (StringMatcher ic v) p = match_string lb ic v p"
| "match lb (CharClassMatcher chars ranges classes ic invd) p =
     match_charClass lb chars ranges classes ic invd p"


section \<open>ops.go, stacks.go, vm.go: the machine\<close>

subsection \<open>Values, instructions, programs\<close>

text \<open>
  What an \<open>interface{}\<close> on the V stack can hold: \<open>nil\<close>, the sentinel \<open>matchFailed\<close>, a
  slice of the input, a \<open>[]interface{}\<close> (the nil slice is the empty list), or a value
  made by user code (opaque, known by a token).
\<close>

datatype val = VNil | VFailed | VBytes bytes | VList "val list" | VUser string

type_synonym argsSet = "string \<rightharpoonup> val"

record instr =
  op :: op
  ruleNmIx :: int
  args :: "16 word list"

text \<open>
  A thunk is a \<open>func(*vm)\<close>; the code the generator wraps around user code is not part of
  the runtime. A thunk is given the \<open>current\<close> value and the argument set on top of the
  A stack. It returns a value (or a boolean) and possibly an error, or it panics.
\<close>

datatype athunk_result = AReturn val "err option" | APanic panic
datatype bthunk_result = BReturn bool "err option" | BPanic panic

record program =
  instrs :: "instr list"
  pg_ms :: "matcher list"
  pg_as :: "(current \<Rightarrow> argsSet \<Rightarrow> athunk_result) list"
  pg_bs :: "(current \<Rightarrow> argsSet \<Rightarrow> bthunk_result) list"
  pg_ss :: "string list"

definition ruleNameAt :: "program \<Rightarrow> int \<Rightarrow> string" where
  "ruleNameAt g ix = (if ix < 0 \<or> int (length (pg_ss g)) \<le> ix then [] else pg_ss g ! nat ix)"

record memoizedResult =
  mr_v :: val
  mr_pt :: svpt

text \<open>
  The five stacks are lists with the top at the head. \<open>pop\<close> of the P, I, V and L stacks
  reads \<open>ar[sp]\<close> after decrementing \<open>sp\<close> and so panics on an empty stack. \<open>pop\<close> of the
  A stack only decrements \<open>sp\<close>: \<open>a_under\<close> counts how far \<open>sp\<close> is below zero, and a later
  \<open>push\<close> or \<open>peek\<close> panics then.
\<close>

record vm =
  filename :: string
  parser :: parser
  debug :: bool
  memoize :: bool
  recover :: bool
  pc :: "16 word"
  pg :: program
  cur :: current
  p_stack :: "svpt list"
  l_stack :: "16 word list list"
  v_stack :: "val list"
  i_stack :: "16 word list"
  a_stack :: "argsSet list"
  a_under :: nat
  memo :: "16 word \<rightharpoonup> (int \<rightharpoonup> memoizedResult)"
  ffp :: ffp
  matchCnt :: int
  callCnt :: int
  actionCnt :: int
  codePredCnt :: int
  errs :: errList

definition pstackID :: "16 word" where "pstackID = 1"
definition lstackID :: "16 word" where "lstackID = 2"
definition vstackID :: "16 word" where "vstackID = 3"
definition istackID :: "16 word" where "istackID = 4"
definition astackID :: "16 word" where "astackID = 5"

definition vValNil :: "16 word" where "vValNil = 0"
definition vValFailed :: "16 word" where "vValFailed = 1"
definition vValEmpty :: "16 word" where "vValEmpty = 2"

definition vSpecialValues :: "val list" where
  "vSpecialValues = [VNil, VFailed, VList []]"

subsection \<open>Memoization and errors\<close>

definition fromMemo :: "vm \<Rightarrow> 16 word \<Rightarrow> svpt \<Rightarrow> vm option" where
  "fromMemo v ix spt =
     (case memo v ix of
        None \<Rightarrow> None
      | Some m \<Rightarrow>
          (case m (offset (position spt)) of
             None \<Rightarrow> None
           | Some res \<Rightarrow>
               Some (v\<lparr>parser := (parser v)\<lparr>pt := mr_pt res\<rparr>,
                        v_stack := mr_v res # v_stack v\<rparr>)))"

text \<open>\<open>memoizeMatch\<close>; \<open>None\<close> when \<open>sliceFrom\<close> panics.\<close>

definition memoizeMatch :: "vm \<Rightarrow> 16 word \<Rightarrow> svpt \<Rightarrow> bool \<Rightarrow> vm option" where
  "memoizeMatch v ix spt ok =
     (let m = (case memo v ix of None \<Rightarrow> Map.empty | Some m \<Rightarrow> m)
      in if ok then
           (case sliceFrom (parser v) spt of
              None \<Rightarrow> None
            | Some b \<Rightarrow>
                Some (v\<lparr>memo := (memo v)(ix \<mapsto>
                  m(offset (position spt) \<mapsto> \<lparr>mr_v = VBytes b, mr_pt = pt (parser v)\<rparr>))\<rparr>))
         else
           Some (v\<lparr>memo := (memo v)(ix \<mapsto>
                  m(offset (position spt) \<mapsto> \<lparr>mr_v = VFailed, mr_pt = spt\<rparr>))\<rparr>))"

definition addErrAt :: "lib \<Rightarrow> vm \<Rightarrow> err \<Rightarrow> int \<Rightarrow> position \<Rightarrow> vm" where
  "addErrAt lb v e rix ps =
     (let buf0 = (if filename v \<noteq> [] then filename v else []);
          buf1 = (if 0 < length buf0 then buf0 @ '':'' else buf0);
          buf2 = buf1 @ fmtPos lb ps;
          ruleNm = ruleNameAt (pg v) rix;
          buf3 = (if ruleNm \<noteq> [] then buf2 @ '': '' @ (''rule '' @ ruleNm) else buf2)
      in v\<lparr>errs := errList_add (errs v) (Some \<lparr>Inner = e, pe_prefix = buf3\<rparr>)\<rparr>)"

definition addErr :: "lib \<Rightarrow> vm \<Rightarrow> err \<Rightarrow> vm" where
  "addErr lb v e = addErrAt lb v e (- 1) (position (pt (parser v)))"

definition ffp_err :: "ffp \<Rightarrow> err option" where
  "ffp_err f = (if 0 \<le> offset (ffp_pos f) then Some (ErrFfp f) else None)"

subsection \<open>One instruction\<close>

datatype step_result = Next vm | Exit val vm | Panic panic vm

definition rt_panic :: "vm \<Rightarrow> step_result" where
  "rt_panic v = Panic (PanicErr ErrRuntime) v"

text \<open>The argument set a thunk sees: the top of the A stack.\<close>

definition cur_frame :: "vm \<Rightarrow> argsSet" where
  "cur_frame v = (case a_stack v of [] \<Rightarrow> Map.empty | f # _ \<Rightarrow> f)"

definition op_call :: "vm \<Rightarrow> step_result" where
  "op_call v =
     (case i_stack v of
        [] \<Rightarrow> rt_panic v
      | ix # is \<Rightarrow> Next (v\<lparr>i_stack := pc v # is, pc := ix, callCnt := callCnt v + 1\<rparr>))"

definition op_callA :: "lib \<Rightarrow> instr \<Rightarrow> vm \<Rightarrow> step_result" where
  "op_callA lb ins v =
     (case v_stack v of
        [] \<Rightarrow> rt_panic v
      | _ # vs \<Rightarrow>
        (let v1 = v\<lparr>v_stack := vs\<rparr> in
         case p_stack v1 of
           [] \<Rightarrow> rt_panic v1
         | start # ps \<Rightarrow>
           (let v2 = v1\<lparr>p_stack := ps, cur := (cur v1)\<lparr>cur_pos := position start\<rparr>\<rparr> in
            case sliceFrom (parser v2) start of
              None \<Rightarrow> rt_panic v2
            | Some txt \<Rightarrow>
              (let v3 = v2\<lparr>cur := (cur v2)\<lparr>cur_text := txt\<rparr>\<rparr> in
               case args ins of
                 [] \<Rightarrow> rt_panic v3
               | a0 # _ \<Rightarrow>
                 if length (pg_as (pg v3)) \<le> unat a0
                 then Panic (PanicVal (InvalidArgument (op ins) a0)) v3
                 else
                   (case (pg_as (pg v3) ! unat a0) (cur v3) (cur_frame v3) of
                      APanic e \<Rightarrow> Panic e v3
                    | AReturn x er \<Rightarrow>
                        (let v4 = (case er of
                                     None \<Rightarrow> v3
                                   | Some e \<Rightarrow> addErrAt lb v3 e (ruleNmIx ins) (position start))
                         in Next (v4\<lparr>v_stack := x # v_stack v4,
                                     actionCnt := actionCnt v4 + 1\<rparr>)))))))"

definition op_callB :: "lib \<Rightarrow> instr \<Rightarrow> vm \<Rightarrow> step_result" where
  "op_callB lb ins v =
     (let v1 = v\<lparr>cur := \<lparr>cur_pos = position (pt (parser v)), cur_text = []\<rparr>\<rparr> in
      case args ins of
        [] \<Rightarrow> rt_panic v1
      | a0 # _ \<Rightarrow>
        if length (pg_bs (pg v1)) \<le> unat a0
        then Panic (PanicVal (InvalidArgument (op ins) a0)) v1
        else
          (case (pg_bs (pg v1) ! unat a0) (cur v1) (cur_frame v1) of
             BPanic e \<Rightarrow> Panic e v1
           | BReturn b er \<Rightarrow>
               (let v2 = (case er of
                            None \<Rightarrow> v1
                          | Some e \<Rightarrow> addErrAt lb v1 e (ruleNmIx ins) (position (pt (parser v1))));
                    v3 = v2\<lparr>codePredCnt := codePredCnt v2 + 1\<rparr>
                in if \<not> b then Next (v3\<lparr>v_stack := VFailed # v_stack v3\<rparr>)
                   else Next (v3\<lparr>v_stack := VNil # v_stack v3\<rparr>))))"

definition op_cumulOrF :: "instr \<Rightarrow> vm \<Rightarrow> step_result" where
  "op_cumulOrF ins v =
     (case v_stack v of
        [] \<Rightarrow> rt_panic v
      | [va] \<Rightarrow> rt_panic (v\<lparr>v_stack := []\<rparr>)
      | va # vb # vs \<Rightarrow>
        (let v1 = v\<lparr>v_stack := vs\<rparr> in
         if va = VFailed then Next (v1\<lparr>v_stack := VFailed # vs\<rparr>)
         else (case vb of
                 VList xs \<Rightarrow> Next (v1\<lparr>v_stack := VList (xs @ [va]) # vs\<rparr>)
               | VFailed \<Rightarrow> Next (v1\<lparr>v_stack := VList [va] # vs\<rparr>)
               | _ \<Rightarrow> Panic (PanicVal (InvalidValueType (op ins))) v1)))"

definition op_exit :: "vm \<Rightarrow> step_result" where
  "op_exit v =
     (case v_stack v of
        [] \<Rightarrow> rt_panic v
      | x # vs \<Rightarrow> Exit x (v\<lparr>v_stack := vs\<rparr>))"

definition op_jump :: "instr \<Rightarrow> vm \<Rightarrow> step_result" where
  "op_jump ins v =
     (case args ins of
        [] \<Rightarrow> rt_panic v
      | a0 # _ \<Rightarrow> Next (v\<lparr>pc := a0\<rparr>))"

definition op_jumpIfF :: "instr \<Rightarrow> vm \<Rightarrow> step_result" where
  "op_jumpIfF ins v =
     (case v_stack v of
        [] \<Rightarrow> rt_panic v
      | tp # _ \<Rightarrow>
        if tp = VFailed then
          (case args ins of
             [] \<Rightarrow> rt_panic v
           | a0 # _ \<Rightarrow> Next (v\<lparr>pc := a0\<rparr>))
        else Next v)"

definition op_jumpIfT :: "instr \<Rightarrow> vm \<Rightarrow> step_result" where
  "op_jumpIfT ins v =
     (case v_stack v of
        [] \<Rightarrow> rt_panic v
      | tp # _ \<Rightarrow>
        if tp \<noteq> VFailed then
          (case args ins of
             [] \<Rightarrow> rt_panic v
           | a0 # _ \<Rightarrow> Next (v\<lparr>pc := a0\<rparr>))
        else Next v)"

text \<open>
  \<open>opMatch\<close>. With the memoize option a stored result for this instruction and offset is
  reused (\<open>op_match\<close>). Otherwise the matcher runs (\<open>run_matcher\<close>, the rest of the case):
  the result is stored (with the option), and a failure updates the farthest failure
  position and puts the cursor back.
\<close>

definition run_matcher :: "lib \<Rightarrow> instr \<Rightarrow> vm \<Rightarrow> svpt \<Rightarrow> step_result" where
  "run_matcher lb ins v start =
     (case args ins of
        [] \<Rightarrow> rt_panic v
      | a0 # _ \<Rightarrow>
        if length (pg_ms (pg v)) \<le> unat a0
        then Panic (PanicVal (InvalidArgument (op ins) a0)) v
        else
          (let m = pg_ms (pg v) ! unat a0 in
           case match lb m (parser v) of
             (Raise e, p') \<Rightarrow> Panic e (v\<lparr>parser := p'\<rparr>)
           | (Done ok, p') \<Rightarrow>
             (let v1 = v\<lparr>parser := p'\<rparr> in
              case (if memoize v1 then memoizeMatch v1 (pc v1 - 1) start ok else Some v1) of
                None \<Rightarrow> rt_panic v1
              | Some v2 \<Rightarrow>
                (let v3 = v2\<lparr>matchCnt := matchCnt v2 + 1\<rparr> in
                 if ok then
                   (case sliceFrom (parser v3) start of
                      None \<Rightarrow> rt_panic v3
                    | Some b \<Rightarrow> Next (v3\<lparr>v_stack := VBytes b # v_stack v3\<rparr>))
                 else
                   (let v4 = (if offset (ffp_pos (ffp v3)) < offset (position start)
                              then v3\<lparr>ffp := \<lparr>ffp_pos = position start,
                                               ffp_ruleNmIx = ruleNmIx ins,
                                               ffp_rn = rn start,
                                               ffp_want = fmtMatcher lb m\<rparr>\<rparr>
                              else v3)
                    in Next (v4\<lparr>v_stack := VFailed # v_stack v4,
                                parser := (parser v4)\<lparr>pt := start\<rparr>\<rparr>))))))"

definition op_match :: "lib \<Rightarrow> instr \<Rightarrow> vm \<Rightarrow> step_result" where
  "op_match lb ins v =
     (let start = pt (parser v) in
      case (if memoize v then fromMemo v (pc v - 1) start else None) of
        Some v' \<Rightarrow> Next v'
      | None \<Rightarrow> run_matcher lb ins v start)"

definition op_nilIfF :: "vm \<Rightarrow> step_result" where
  "op_nilIfF v =
     (case v_stack v of
        [] \<Rightarrow> rt_panic v
      | tp # vs \<Rightarrow>
        if tp = VFailed then Next (v\<lparr>v_stack := VNil # vs\<rparr>)
        else Next (v\<lparr>v_stack := VFailed # vs\<rparr>))"

definition op_nilIfT :: "vm \<Rightarrow> step_result" where
  "op_nilIfT v =
     (case v_stack v of
        [] \<Rightarrow> rt_panic v
      | tp # vs \<Rightarrow>
        if tp \<noteq> VFailed then Next (v\<lparr>v_stack := VNil # vs\<rparr>)
        else Next (v\<lparr>v_stack := VFailed # vs\<rparr>))"

definition a_pop :: "vm \<Rightarrow> vm" where
  "a_pop v =
     (case a_stack v of
        [] \<Rightarrow> v\<lparr>a_under := a_under v + 1\<rparr>
      | _ # fs \<Rightarrow> (if 0 < a_under v then v\<lparr>a_under := a_under v + 1\<rparr> else v\<lparr>a_stack := fs\<rparr>))"

definition op_pop :: "instr \<Rightarrow> vm \<Rightarrow> step_result" where
  "op_pop ins v =
     (case args ins of
        [] \<Rightarrow> rt_panic v
      | a0 # _ \<Rightarrow>
        if a0 = lstackID then
          (case l_stack v of [] \<Rightarrow> rt_panic v | _ # ls \<Rightarrow> Next (v\<lparr>l_stack := ls\<rparr>))
        else if a0 = pstackID then
          (case p_stack v of [] \<Rightarrow> rt_panic v | _ # ps \<Rightarrow> Next (v\<lparr>p_stack := ps\<rparr>))
        else if a0 = astackID then Next (a_pop v)
        else if a0 = vstackID then
          (case v_stack v of [] \<Rightarrow> rt_panic v | _ # vs \<Rightarrow> Next (v\<lparr>v_stack := vs\<rparr>))
        else Panic (PanicVal (InvalidArgument (op ins) a0)) v)"

definition op_popVJumpIfF :: "instr \<Rightarrow> vm \<Rightarrow> step_result" where
  "op_popVJumpIfF ins v =
     (case v_stack v of
        [] \<Rightarrow> rt_panic v
      | tp # vs \<Rightarrow>
        if tp = VFailed then
          (let v1 = v\<lparr>v_stack := vs\<rparr> in
           case args ins of
             [] \<Rightarrow> rt_panic v1
           | a0 # _ \<Rightarrow> Next (v1\<lparr>pc := a0\<rparr>))
        else Next v)"

definition op_push :: "instr \<Rightarrow> vm \<Rightarrow> step_result" where
  "op_push ins v =
     (case args ins of
        [] \<Rightarrow> rt_panic v
      | a0 # rest \<Rightarrow>
        if a0 = pstackID then Next (v\<lparr>p_stack := pt (parser v) # p_stack v\<rparr>)
        else if a0 = istackID then
          (case rest of [] \<Rightarrow> rt_panic v | a1 # _ \<Rightarrow> Next (v\<lparr>i_stack := a1 # i_stack v\<rparr>))
        else if a0 = vstackID then
          (case rest of
             [] \<Rightarrow> rt_panic v
           | a1 # _ \<Rightarrow>
             if length vSpecialValues \<le> unat a1
             then Panic (PanicVal (InvalidVStackArgument (op ins) a1)) v
             else Next (v\<lparr>v_stack := (vSpecialValues ! unat a1) # v_stack v\<rparr>))
        else if a0 = astackID then
          (if 0 < a_under v then rt_panic v else Next (v\<lparr>a_stack := Map.empty # a_stack v\<rparr>))
        else if a0 = lstackID then Next (v\<lparr>l_stack := rest # l_stack v\<rparr>)
        else Panic (PanicVal (InvalidArgument (op ins) a0)) v)"

definition op_restore :: "vm \<Rightarrow> step_result" where
  "op_restore v =
     (case p_stack v of
        [] \<Rightarrow> rt_panic v
      | spt # ps \<Rightarrow> Next (v\<lparr>p_stack := ps, parser := (parser v)\<lparr>pt := spt\<rparr>\<rparr>))"

definition op_restoreIfF :: "vm \<Rightarrow> step_result" where
  "op_restoreIfF v =
     (case p_stack v of
        [] \<Rightarrow> rt_panic v
      | spt # ps \<Rightarrow>
        (let v1 = v\<lparr>p_stack := ps\<rparr> in
         case v_stack v1 of
           [] \<Rightarrow> rt_panic v1
         | tp # _ \<Rightarrow>
           if tp = VFailed then Next (v1\<lparr>parser := (parser v1)\<lparr>pt := spt\<rparr>\<rparr>)
           else Next v1))"

definition op_return :: "vm \<Rightarrow> step_result" where
  "op_return v =
     (case i_stack v of
        [] \<Rightarrow> rt_panic v
      | ix # is \<Rightarrow> Next (v\<lparr>i_stack := is, pc := ix\<rparr>))"

definition op_storeIfT :: "instr \<Rightarrow> vm \<Rightarrow> step_result" where
  "op_storeIfT ins v =
     (case v_stack v of
        [] \<Rightarrow> rt_panic v
      | tp # _ \<Rightarrow>
        if tp \<noteq> VFailed then
          (case args ins of
             [] \<Rightarrow> rt_panic v
           | a0 # _ \<Rightarrow>
             if length (pg_ss (pg v)) \<le> unat a0
             then Panic (PanicVal (InvalidArgument (op ins) a0)) v
             else
               (let lbl = pg_ss (pg v) ! unat a0 in
                case a_stack v of
                  [] \<Rightarrow> rt_panic v
                | f # fs \<Rightarrow>
                  if 0 < a_under v then rt_panic v
                  else Next (v\<lparr>a_stack := f(lbl \<mapsto> tp) # fs\<rparr>)))
        else Next v)"

definition op_takeLOrJump :: "instr \<Rightarrow> vm \<Rightarrow> step_result" where
  "op_takeLOrJump ins v =
     (case l_stack v of
        [] \<Rightarrow> rt_panic v
      | a # ls \<Rightarrow>
        (case a of
           [] \<Rightarrow>
             (case args ins of
                [] \<Rightarrow> rt_panic v
              | a0 # _ \<Rightarrow> Next (v\<lparr>pc := a0\<rparr>))
         | ix # a' \<Rightarrow> Next (v\<lparr>l_stack := a' # ls, i_stack := ix # i_stack v\<rparr>)))"

definition exec_instr :: "lib \<Rightarrow> instr \<Rightarrow> vm \<Rightarrow> step_result" where
  "exec_instr lb ins v =
     (case op ins of
        opCall \<Rightarrow> op_call v
      | opCallA \<Rightarrow> op_callA lb ins v
      | opCallB \<Rightarrow> op_callB lb ins v
      | opCumulOrF \<Rightarrow> op_cumulOrF ins v
      | opExit \<Rightarrow> op_exit v
      | opJump \<Rightarrow> op_jump ins v
      | opJumpIfF \<Rightarrow> op_jumpIfF ins v
      | opJumpIfT \<Rightarrow> op_jumpIfT ins v
      | opMatch \<Rightarrow> op_match lb ins v
      | opNilIfF \<Rightarrow> op_nilIfF v
      | opNilIfT \<Rightarrow> op_nilIfT v
      | opPop \<Rightarrow> op_pop ins v
      | opPopVJumpIfF \<Rightarrow> op_popVJumpIfF ins v
      | opPush \<Rightarrow> op_push ins v
      | opRestore \<Rightarrow> op_restore v
      | opRestoreIfF \<Rightarrow> op_restoreIfF v
      | opReturn \<Rightarrow> op_return v
      | opStoreIfT \<Rightarrow> op_storeIfT ins v
      | opTakeLOrJump \<Rightarrow> op_takeLOrJump ins v
      | opPlaceholder \<Rightarrow> Panic (PanicVal (UnknownOpcode (op ins))) v)"

text \<open>
  One turn of the loop of \<open>dispatch\<close>: fetch \<open>instrs[pc]\<close> (an index expression that
  panics out of range), increment the program counter, execute.
\<close>

definition fetch :: "vm \<Rightarrow> instr option" where
  "fetch v = (if unat (pc v) < length (instrs (pg v)) then Some (instrs (pg v) ! unat (pc v))
              else None)"

definition step :: "lib \<Rightarrow> vm \<Rightarrow> step_result" where
  "step lb v =
     (case fetch v of
        None \<Rightarrow> rt_panic v
      | Some ins \<Rightarrow> exec_instr lb ins (v\<lparr>pc := pc v + 1\<rparr>))"

subsection \<open>The loop, \<open>dispatch\<close>, \<open>run\<close> and \<open>Parse\<close>\<close>

text \<open>
  The loop of \<open>dispatch\<close> ends only through \<open>opExit\<close> or a panic, and may not end at all:
  it is run with a bound on the number of instructions, and \<open>None\<close> means that the bound
  was reached.
\<close>

fun loop :: "lib \<Rightarrow> nat \<Rightarrow> vm \<Rightarrow> step_result option" where
  "loop lb 0 v = None"
| "loop lb (Suc n) v =
     (case step lb v of
        Next v' \<Rightarrow> loop lb n v'
      | Exit x v' \<Rightarrow> Some (Exit x v')
      | Panic e v' \<Rightarrow> Some (Panic e v'))"

datatype dispatch_result = Returned val vm | Propagated panic vm

text \<open>
  The deferred function of \<open>dispatch\<close>. With the recover option the panic becomes an
  error at the position of the cursor, named after the rule of the instruction before
  the program counter, and \<open>dispatch\<close> returns the zero value \<open>nil\<close>. Reading
  \<open>instrs[pc-1]\<close> out of range panics inside the deferred function. Without the option
  the panic goes to the caller.
\<close>

definition panic_err :: "panic \<Rightarrow> err" where
  "panic_err e = (case e of PanicErr x \<Rightarrow> x | PanicVal x \<Rightarrow> Errorf x)"

definition recovered :: "lib \<Rightarrow> panic \<Rightarrow> vm \<Rightarrow> dispatch_result" where
  "recovered lb e v =
     (if recover v then
        (if 0 < unat (pc v) then
           (if unat (pc v - 1) < length (instrs (pg v))
            then Returned VNil (addErrAt lb v (panic_err e)
                   (ruleNmIx (instrs (pg v) ! unat (pc v - 1))) (position (pt (parser v))))
            else Propagated (PanicErr ErrRuntime) v)
         else Returned VNil (addErrAt lb v (panic_err e) (- 1) (position (pt (parser v)))))
      else Propagated e v)"

definition dispatch :: "lib \<Rightarrow> nat \<Rightarrow> vm \<Rightarrow> dispatch_result option" where
  "dispatch lb n v =
     (case read lb (parser v) of
        (Raise e, p') \<Rightarrow> Some (recovered lb e (v\<lparr>parser := p'\<rparr>))
      | (Done _, p') \<Rightarrow>
          (case loop lb n (v\<lparr>parser := p'\<rparr>) of
             None \<Rightarrow> None
           | Some (Next v') \<Rightarrow> None
           | Some (Exit x v') \<Rightarrow> Some (Returned x v')
           | Some (Panic e v') \<Rightarrow> Some (recovered lb e v')))"

datatype run_result = RunOk val "errList option" | RunPanic panic

text \<open>The first lines of \<open>run\<close>: the program, five empty stacks, and no failure recorded.\<close>

definition run_init :: "vm \<Rightarrow> program \<Rightarrow> vm" where
  "run_init v g =
     v\<lparr>pg := g, a_stack := [], a_under := 0, i_stack := [], v_stack := [], l_stack := [],
       p_stack := [], ffp := (ffp v)\<lparr>ffp_pos := (ffp_pos (ffp v))\<lparr>offset := - 1\<rparr>\<rparr>\<rparr>"

text \<open>
  The end of \<open>run\<close>, after \<open>dispatch\<close> has returned \<open>ret\<close>: a failed match becomes \<open>nil\<close>
  and makes sure there is an error; the result is \<open>ret\<close> and \<open>errs.err()\<close>.
\<close>

definition run_finish :: "lib \<Rightarrow> val \<Rightarrow> vm \<Rightarrow> run_result \<times> vm" where
  "run_finish lb ret v =
     (if ret = VFailed then
        (let v1 = (if length (errs v) = 0 then
                     (case ffp_err (ffp v) of
                        Some e \<Rightarrow> addErrAt lb v e (ffp_ruleNmIx (ffp v)) (ffp_pos (ffp v))
                      | None \<Rightarrow> addErr lb v errNoMatch)
                   else v)
         in (RunOk VNil (errList_err lb (errs v1)), v1))
      else (RunOk ret (errList_err lb (errs v)), v))"

definition run :: "lib \<Rightarrow> nat \<Rightarrow> vm \<Rightarrow> program \<Rightarrow> (run_result \<times> vm) option" where
  "run lb n v g =
     (case dispatch lb n (run_init v g) of
        None \<Rightarrow> None
      | Some (Propagated e v') \<Rightarrow> Some (RunPanic e, v')
      | Some (Returned ret v') \<Rightarrow> Some (run_finish lb ret v'))"

text \<open>pub.go: the options and \<open>Parse\<close>. The program is the global \<open>theProgram\<close>.\<close>

datatype parse_option = Debug bool | Memoize bool | Recover bool

fun setOption :: "parse_option \<Rightarrow> vm \<Rightarrow> vm" where
  "setOption (Debug b) v = v\<lparr>debug := b\<rparr>"
| "setOption (Memoize b) v = v\<lparr>memoize := b\<rparr>"
| "setOption (Recover b) v = v\<lparr>recover := b\<rparr>"

fun setOptions :: "parse_option list \<Rightarrow> vm \<Rightarrow> vm" where
  "setOptions [] v = v"
| "setOptions (opt # opts) v = setOptions opts (setOption opt v)"

definition zero_position :: position where
  "zero_position = \<lparr>line = 0, col = 0, offset = 0\<rparr>"

definition new_vm :: "string \<Rightarrow> bytes \<Rightarrow> vm" where
  "new_vm fname b =
     \<lparr>filename = fname,
      parser = \<lparr>data = b, pt = \<lparr>position = \<lparr>line = 1, col = 0, offset = 0\<rparr>, rn = 0, w = 0\<rparr>\<rparr>,
      debug = False, memoize = False, recover = True,
      pc = 0,
      pg = \<lparr>instrs = [], pg_ms = [], pg_as = [], pg_bs = [], pg_ss = []\<rparr>,
      cur = \<lparr>cur_pos = zero_position, cur_text = []\<rparr>,
      p_stack = [], l_stack = [], v_stack = [], i_stack = [], a_stack = [], a_under = 0,
      memo = Map.empty,
      ffp = \<lparr>ffp_pos = zero_position, ffp_ruleNmIx = 0, ffp_rn = 0, ffp_want = []\<rparr>,
      matchCnt = 0, callCnt = 0, actionCnt = 0, codePredCnt = 0,
      errs = []\<rparr>"

definition Parse ::
  "lib \<Rightarrow> program \<Rightarrow> nat \<Rightarrow> string \<Rightarrow> bytes \<Rightarrow> parse_option list \<Rightarrow> (run_result \<times> vm) option" where
  "Parse lb theProgram n fname b opts = run lb n (setOptions opts (new_vm fname b)) theProgram"

section \<open>Instruction blocks of the generator\<close>

text \<open>
  The blocks the generator emits, as the helpers of its tests build them
  (\<open>encodeBootstrap\<close>, \<open>encodeMatcher\<close>, ...). In the runtime an instruction is a struct
  that carries its whole argument list, so a push on the L stack is one instruction; the
  helpers' \<open>delta\<close>, which counts the extra words of a packed encoding, is zero here.
  The first argument is the rule index stored in every instruction of the block.
\<close>

definition mk :: "int \<Rightarrow> op \<Rightarrow> 16 word list \<Rightarrow> instr" where
  "mk r c xs = \<lparr>op = c, ruleNmIx = r, args = xs\<rparr>"

definition encodeBootstrap :: "16 word \<Rightarrow> instr list" where
  "encodeBootstrap start =
     [mk (- 1) opPush [istackID, start],
      mk (- 1) opPush [astackID],
      mk (- 1) opCall [],
      mk (- 1) opExit []]"

definition encodeMatcher :: "int \<Rightarrow> 16 word \<Rightarrow> instr list" where
  "encodeMatcher r mIx =
     [mk r opPush [pstackID],
      mk r opMatch [mIx],
      mk r opRestoreIfF [],
      mk r opReturn []]"

definition encodeSequence :: "int \<Rightarrow> 16 word \<Rightarrow> 16 word list \<Rightarrow> instr list" where
  "encodeSequence r start ls =
     [mk r opPush [pstackID],
      mk r opPush [vstackID, vValFailed],
      mk r opPush (lstackID # ls),
      mk r opTakeLOrJump [start + 8],
      mk r opCall [],
      mk r opCumulOrF [],
      mk r opJumpIfF [start + 8],
      mk r opJump [start + 3],
      mk r opPop [lstackID],
      mk r opRestoreIfF [],
      mk r opReturn []]"

definition encodeChoice :: "int \<Rightarrow> 16 word \<Rightarrow> 16 word list \<Rightarrow> instr list" where
  "encodeChoice r start ls =
     [mk r opPush (lstackID # ls),
      mk r opTakeLOrJump [start + 7],
      mk r opPush [astackID],
      mk r opCall [],
      mk r opPop [astackID],
      mk r opJumpIfT [start + 7],
      mk r opJump [start + 1],
      mk r opPop [lstackID],
      mk r opReturn []]"

definition encodeRepetition :: "int \<Rightarrow> 16 word \<Rightarrow> 16 word \<Rightarrow> 16 word \<Rightarrow> instr list" where
  "encodeRepetition r start vVal ix =
     [mk r opPush [vstackID, vVal],
      mk r opPush [istackID, ix],
      mk r opPush [astackID],
      mk r opCall [],
      mk r opPop [astackID],
      mk r opPopVJumpIfF [start + 8],
      mk r opCumulOrF [],
      mk r opJump [start + 1],
      mk r opReturn []]"

definition encodeOption :: "int \<Rightarrow> 16 word \<Rightarrow> 16 word \<Rightarrow> instr list" where
  "encodeOption r start ix =
     [mk r opPush [istackID, ix],
      mk r opPush [astackID],
      mk r opCall [],
      mk r opPop [astackID],
      mk r opPopVJumpIfF [start + 6],
      mk r opReturn [],
      mk r opPush [vstackID, vValNil],
      mk r opReturn []]"


definition encodePredicate :: "int \<Rightarrow> bool \<Rightarrow> 16 word \<Rightarrow> instr list" where
  "encodePredicate r isAnd ix =
     [mk r opPush [pstackID],
      mk r opPush [istackID, ix],
      mk r opPush [astackID],
      mk r opCall [],
      mk r opPop [astackID],
      mk r (if isAnd then opNilIfT else opNilIfF) [],
      mk r opRestore [],
      mk r opReturn []]"

definition encodeCodePredicate :: "int \<Rightarrow> bool \<Rightarrow> 16 word \<Rightarrow> instr list" where
  "encodeCodePredicate r isAnd bIx =
     [mk r opCallB [bIx],
      mk r (if isAnd then opNilIfT else opNilIfF) [],
      mk r opReturn []]"

definition encodeLabel :: "int \<Rightarrow> 16 word \<Rightarrow> 16 word \<Rightarrow> instr list" where
  "encodeLabel r lblIx ix =
     [mk r opPush [istackID, ix],
      mk r opPush [astackID],
      mk r opCall [],
      mk r opPop [astackID],
      mk r opStoreIfT [lblIx],
      mk r opReturn []]"

definition encodeAction :: "int \<Rightarrow> 16 word \<Rightarrow> 16 word \<Rightarrow> 16 word \<Rightarrow> instr list" where
  "encodeAction r start actIx ix =
     [mk r opPush [pstackID],
      mk r opPush [istackID, ix],
      mk r opCall [],
      mk r opJumpIfF [start + 6],
      mk r opCallA [actIx],
      mk r opReturn [],
      mk r opPop [pstackID],
      mk r opReturn []]"

section \<open>Examples\<close>

text \<open>
  A stand-in for the standard library that agrees with it on ASCII input: one byte per
  rune, any other byte is an encoding error, lower case of the letters A to Z, no
  Unicode classes, and short fixed formats. The examples below run on it.
\<close>

definition ascii_lib :: lib where
  "ascii_lib =
     \<lparr>decodeRune = (\<lambda>bs. case bs of
                            [] \<Rightarrow> (RuneError, 0)
                          | c # _ \<Rightarrow> (if (of_char c :: nat) < 128 then (int (of_char c), 1)
                                      else (RuneError, 1))),
      toLower = (\<lambda>r. if 65 \<le> r \<and> r \<le> 90 then r + 32 else r),
      unicodeIs = (\<lambda>cl r. False),
      fmtPos = (\<lambda>ps. ''pos''),
      fmtMatcher = (\<lambda>m. ''matcher''),
      fmtExpected = (\<lambda>s r. ''expected '' @ s),
      fmtPval = (\<lambda>x. case x of UserValue s \<Rightarrow> s | _ \<Rightarrow> ''vm panic''),
      runtimeMsg = ''runtime error''\<rparr>"

text \<open>The cursor on the first rune of \<open>b\<close>, as \<open>dispatch\<close> sets it before its loop.\<close>

definition parser_on :: "lib \<Rightarrow> bytes \<Rightarrow> parser" where
  "parser_on lb b = snd (read lb (parser (new_vm [] b)))"

text \<open>
  The grammar \<open>A = &{x} &{x}\<close>, where the predicate returns true together with an error.
\<close>

definition pred_err :: "current \<Rightarrow> argsSet \<Rightarrow> bthunk_result" where
  "pred_err c f = BReturn True (Some (ErrUser ''boom''))"

definition prog_two_preds :: program where
  "prog_two_preds =
     \<lparr>instrs = encodeBootstrap 10 @ encodeCodePredicate 0 True 0 @ encodeCodePredicate 0 True 0
                 @ encodeSequence 0 10 [4, 7],
      pg_ms = [], pg_as = [], pg_bs = [pred_err], pg_ss = [''A'']\<rparr>"

text \<open>
  The grammar \<open>A = 'a' {x}\<close>, where the action returns a value together with an error.
\<close>

definition act_err :: "current \<Rightarrow> argsSet \<Rightarrow> athunk_result" where
  "act_err c f = AReturn (VUser ''x'') (Some (ErrUser ''boom''))"

definition prog_action :: program where
  "prog_action =
     \<lparr>instrs = encodeBootstrap 8 @ encodeMatcher 0 0 @ encodeAction 0 8 0 4,
      pg_ms = [StringMatcher False [97]], pg_as = [act_err], pg_bs = [], pg_ss = [''A'']\<rparr>"




section \<open>Auxiliary functions of the proofs\<close>

text \<open>
  The elements of a list whose message is neither in \<open>seen\<close> nor carried by an earlier
  element.
\<close>

fun firsts :: "('e \<Rightarrow> string) \<Rightarrow> string set \<Rightarrow> 'e list \<Rightarrow> 'e list" where
  "firsts msg seen [] = []"
| "firsts msg seen (x # xs) =
     (if msg x \<in> seen then firsts msg seen xs else x # firsts msg (insert (msg x) seen) xs)"

text \<open>
  The runes under the cursor before each of \<open>n\<close> successive calls of \<open>read\<close>, and the
  parser after them; \<open>None\<close> when one of the calls panics.
\<close>

fun read_runes :: "lib \<Rightarrow> nat \<Rightarrow> parser \<Rightarrow> (rune list \<times> parser) option" where
  "read_runes lb 0 p = Some ([], p)"
| "read_runes lb (Suc n) p =
     (case read lb p of
        (Raise e, p') \<Rightarrow> None
      | (Done u, p') \<Rightarrow>
          (case read_runes lb n p' of
             None \<Rightarrow> None
           | Some (rs, p'') \<Rightarrow> Some (rn (peek p) # rs, p'')))"

text \<open>
  The code points read from the input for a value of \<open>n\<close> runes: the rune under the cursor,
  then the rune each \<open>read\<close> leaves under it, whether or not that \<open>read\<close> panics.
\<close>

fun code_points :: "lib \<Rightarrow> nat \<Rightarrow> parser \<Rightarrow> rune list" where
  "code_points lb 0 p = []"
| "code_points lb (Suc n) p = rn (peek p) # code_points lb n (snd (read lb p))"

text \<open>The VM state a step result carries, and the parts of the state no instruction changes.\<close>

fun sr_vm :: "step_result \<Rightarrow> vm" where
  "sr_vm (Next v) = v"
| "sr_vm (Exit x v) = v"
| "sr_vm (Panic e v) = v"

definition static :: "vm \<Rightarrow> string \<times> bytes \<times> bool \<times> bool \<times> bool \<times> program" where
  "static v = (filename v, data (parser v), debug v, memoize v, recover v, pg v)"

text \<open>
  The fact about \<open>utf8.DecodeRune\<close> that memoization relies on: a width of zero comes
  only with the error rune, that is, at the end of the input.
\<close>

definition decode_ok :: "lib \<Rightarrow> bool" where
  "decode_ok lb \<longleftrightarrow> (\<forall>bs r. decodeRune lb bs = (r, 0) \<longrightarrow> r = RuneError)"

text \<open>
  The parser as \<open>Parse\<close> creates it, and the parsers that successive calls of \<open>read\<close>
  produce from it: every cursor of a parse is one of them.
\<close>

definition start_parser :: "bytes \<Rightarrow> parser" where
  "start_parser b = \<lparr>data = b, pt = \<lparr>position = \<lparr>line = 1, col = 0, offset = 0\<rparr>, rn = 0, w = 0\<rparr>\<rparr>"

fun cursor :: "lib \<Rightarrow> bytes \<Rightarrow> nat \<Rightarrow> parser option" where
  "cursor lb d 0 = (case read lb (start_parser d) of (Done u, p) \<Rightarrow> Some p | (Raise e, p) \<Rightarrow> None)"
| "cursor lb d (Suc k) =
     (case cursor lb d k of
        None \<Rightarrow> None
      | Some p \<Rightarrow> (case read lb p of (Done u, p') \<Rightarrow> Some p' | (Raise e, p') \<Rightarrow> None))"

definition on_chain :: "lib \<Rightarrow> bytes \<Rightarrow> parser \<Rightarrow> bool" where
  "on_chain lb d p \<longleftrightarrow> (\<exists>k. cursor lb d k = Some p)"

text \<open>
  The fields that memoization touches (the memo, the match counter, the option itself)
  set to given values, and set to fixed values.
\<close>

fun map_sr :: "(vm \<Rightarrow> vm) \<Rightarrow> step_result \<Rightarrow> step_result" where
  "map_sr f (Next v) = Next (f v)"
| "map_sr f (Exit x v) = Exit x (f v)"
| "map_sr f (Panic e v) = Panic e (f v)"

definition tw :: "(16 word \<rightharpoonup> (int \<rightharpoonup> memoizedResult)) \<Rightarrow> int \<Rightarrow> bool \<Rightarrow> vm \<Rightarrow> vm" where
  "tw m c b v = v\<lparr>memoize := b, memo := m, matchCnt := c\<rparr>"

definition erase :: "vm \<Rightarrow> vm" where
  "erase v = tw Map.empty 0 False v"

text \<open>
  A stored result is sound: it is what the matcher of that instruction produces on the
  one cursor of the chain at that offset, and a stored failure is not beyond the
  recorded farthest failure (\<open>fo\<close>). The invariant of a memoizing VM: the cursor and
  the saved cursors are on the chain and every stored result is sound.
\<close>

definition entry_ok ::
  "lib \<Rightarrow> bytes \<Rightarrow> program \<Rightarrow> int \<Rightarrow> 16 word \<Rightarrow> int \<Rightarrow> memoizedResult \<Rightarrow> bool" where
  "entry_ok lb d g fo ix off res \<longleftrightarrow>
     (\<exists>p a0 rest.
        on_chain lb d p \<and> offset (position (pt p)) = off \<and>
        unat ix < length (instrs g) \<and> args (instrs g ! unat ix) = a0 # rest \<and>
        unat a0 < length (pg_ms g) \<and>
        (case match lb (pg_ms g ! unat a0) p of
           (Done ok, p') \<Rightarrow>
             (if ok then (\<exists>b. sliceFrom p' (pt p) = Some b \<and> res = \<lparr>mr_v = VBytes b, mr_pt = pt p'\<rparr>)
              else res = \<lparr>mr_v = VFailed, mr_pt = pt p\<rparr> \<and> off \<le> fo)
         | (Raise e, p') \<Rightarrow> False))"

definition memo_inv :: "lib \<Rightarrow> bytes \<Rightarrow> program \<Rightarrow> vm \<Rightarrow> bool" where
  "memo_inv lb d g v \<longleftrightarrow>
     pg v = g \<and> on_chain lb d (parser v) \<and>
     (\<forall>s \<in> set (p_stack v). on_chain lb d \<lparr>data = d, pt = s\<rparr>) \<and>
     (\<forall>ix m off res. memo v ix = Some m \<longrightarrow> m off = Some res \<longrightarrow>
        entry_ok lb d g (offset (ffp_pos (ffp v))) ix off res)"

text \<open>
  What an instruction other than \<open>opMatch\<close> may do: the cursor stays or becomes a saved
  one, the P stack gains at most the cursor, the memo and the farthest failure stay.
\<close>

definition tame :: "vm \<Rightarrow> vm \<Rightarrow> bool" where
  "tame v v' \<longleftrightarrow>
     memo v' = memo v \<and> ffp v' = ffp v \<and> pg v' = pg v \<and>
     (parser v' = parser v \<or> (\<exists>s \<in> set (p_stack v). parser v' = (parser v)\<lparr>pt := s\<rparr>)) \<and>
     set (p_stack v') \<subseteq> insert (pt (parser v)) (set (p_stack v))"

text \<open>Two results that differ at most in the fields that memoization touches.\<close>

fun sim_sr :: "step_result \<Rightarrow> step_result \<Rightarrow> bool" where
  "sim_sr (Next a) (Next b) = (erase a = erase b)"
| "sim_sr (Exit x a) (Exit y b) = (x = y \<and> erase a = erase b)"
| "sim_sr (Panic x a) (Panic y b) = (x = y \<and> erase a = erase b)"
| "sim_sr _ _ = False"



text \<open>The state after \<open>k\<close> instructions, none of which exits or panics.\<close>

fun steps :: "lib \<Rightarrow> nat \<Rightarrow> vm \<Rightarrow> vm option" where
  "steps lb 0 v = Some v"
| "steps lb (Suc k) v = (case step lb v of Next v' \<Rightarrow> steps lb k v' | _ \<Rightarrow> None)"

text \<open>
  The instruction at an address, and a block at an address: the instructions of the
  program from \<open>b\<close> on have the opcodes and arguments of the block (the rule index is
  left open). Addresses are \<open>uint16\<close>, as the program counter.
\<close>

definition instr_at :: "program \<Rightarrow> 16 word \<Rightarrow> instr option" where
  "instr_at g a = (if unat a < length (instrs g) then Some (instrs g ! unat a) else None)"

fun has_block :: "program \<Rightarrow> 16 word \<Rightarrow> instr list \<Rightarrow> bool" where
  "has_block g b [] = True"
| "has_block g b (i # blk) =
     ((case instr_at g b of None \<Rightarrow> False | Some ins \<Rightarrow> op ins = op i \<and> args ins = args i)
      \<and> has_block g (b + 1) blk)"

text \<open>
  \<open>within\<close>: \<open>s'\<close> is reached from \<open>s\<close> in \<open>n\<close> instructions while the I stack stays
  deeper than \<open>d\<close>. \<open>first_return\<close>: \<open>s'\<close> is the first state from \<open>s\<close> whose I stack is
  not deeper than \<open>d\<close>.
\<close>

definition within :: "lib \<Rightarrow> nat \<Rightarrow> vm \<Rightarrow> nat \<Rightarrow> vm \<Rightarrow> bool" where
  "within lb d s n s' \<longleftrightarrow>
     steps lb n s = Some s' \<and> (\<forall>m \<le> n. \<forall>x. steps lb m s = Some x \<longrightarrow> d < length (i_stack x))"

definition first_return :: "lib \<Rightarrow> nat \<Rightarrow> vm \<Rightarrow> nat \<Rightarrow> vm \<Rightarrow> bool" where
  "first_return lb d s n s' \<longleftrightarrow>
     steps lb n s = Some s' \<and> length (i_stack s') \<le> d
     \<and> (\<forall>m < n. \<forall>x. steps lb m s = Some x \<longrightarrow> d < length (i_stack x))"

definition neutral :: "op \<Rightarrow> bool" where
  "neutral c \<longleftrightarrow> c \<in> {opCallA, opCallB, opCumulOrF, opMatch, opNilIfF, opNilIfT, opRestore,
                      opRestoreIfF, opStoreIfT}"

text \<open>
  The VM is in the program \<open>g\<close> at the address \<open>p\<close> with the I stack \<open>I\<close> and the L stack \<open>L\<close>.
\<close>

definition at :: "program \<Rightarrow> vm \<Rightarrow> 16 word \<Rightarrow> 16 word list \<Rightarrow> 16 word list list \<Rightarrow> bool" where
  "at g s p I L \<longleftrightarrow> pg s = g \<and> pc s = p \<and> i_stack s = I \<and> l_stack s = L"

text \<open>
  A block that keeps the calling convention: when it is entered with a return address on
  the I stack, the first state in which that address has been popped is at the return
  address, with the rest of the I stack and the L stack as they were.
\<close>

definition disciplined :: "lib \<Rightarrow> program \<Rightarrow> 16 word \<Rightarrow> bool" where
  "disciplined lb g a \<longleftrightarrow>
     (\<forall>s n s' rt is L. at g s a (rt # is) L \<longrightarrow> first_return lb (length is) s n s'
        \<longrightarrow> at g s' rt is L)"

text \<open>The grammar \<open>A = 'a' / 'b'\<close>.\<close>

definition prog_choice :: program where
  "prog_choice =
     \<lparr>instrs = encodeBootstrap 12 @ encodeMatcher 0 0 @ encodeMatcher 0 1
                 @ encodeChoice 0 12 [4, 8],
      pg_ms = [StringMatcher False [97], StringMatcher False [98]],
      pg_as = [], pg_bs = [], pg_ss = [''A'']\<rparr>"

text \<open>\<open>within\<close>, computed along the run.\<close>

fun within_chk :: "lib \<Rightarrow> nat \<Rightarrow> vm \<Rightarrow> nat \<Rightarrow> bool" where
  "within_chk lb d s 0 = (d < length (i_stack s))"
| "within_chk lb d s (Suc n) =
     (d < length (i_stack s) \<and>
      (case step lb s of Next s1 \<Rightarrow> within_chk lb d s1 n | _ \<Rightarrow> False))"

text \<open>The rule \<open>A = ('a' / 'b')*\<close>: the two literal blocks at 4 and 8, the choice block
  at 12 and the zero-or-more block at 21, the start of the program.\<close>

definition prog_star_choice :: program where
  "prog_star_choice =
     \<lparr>instrs = encodeBootstrap 21 @ encodeMatcher 0 0 @ encodeMatcher 0 1
                 @ encodeChoice 0 12 [4, 8] @ encodeRepetition 0 21 vValEmpty 12,
      pg_ms = [StringMatcher False [97], StringMatcher False [98]],
      pg_as = [], pg_bs = [], pg_ss = [''A'']\<rparr>"

text \<open>The rule \<open>A = ('a' / 'b')+\<close>, laid out in the same way with the one-or-more block
  at 21.\<close>

definition prog_plus_choice :: program where
  "prog_plus_choice =
     \<lparr>instrs = encodeBootstrap 21 @ encodeMatcher 0 0 @ encodeMatcher 0 1
                 @ encodeChoice 0 12 [4, 8] @ encodeRepetition 0 21 vValFailed 12,
      pg_ms = [StringMatcher False [97], StringMatcher False [98]],
      pg_as = [], pg_bs = [], pg_ss = [''A'']\<rparr>"

section \<open>Properties\<close>

subsection \<open>The error list\<close>

lemma dedupe_loop_firsts: "dedupe_loop msg seen cleaned xs = cleaned @ firsts msg seen xs"
  by (induction xs arbitrary: seen cleaned) auto

lemma firsts_msgs: "msg ` set (firsts msg seen xs) = msg ` set xs - seen"
  by (induction xs arbitrary: seen) auto

lemma firsts_distinct: "distinct (map msg (firsts msg seen xs))"
proof (induction xs arbitrary: seen)
  case Nil
  show ?case by simp
next
  case (Cons x xs)
  have "msg x \<notin> msg ` set (firsts msg (insert (msg x) seen) xs)"
    by (simp add: firsts_msgs)
  with Cons show ?case by simp
qed

lemma firsts_subseq: "subseq (firsts msg seen xs) xs"
  by (induction xs arbitrary: seen) auto

lemma firsts_find:
  "e \<in> set (firsts msg seen xs) \<Longrightarrow> find (\<lambda>x. msg x = msg e) xs = Some e"
proof (induction xs arbitrary: seen)
  case Nil
  then show ?case by simp
next
  case (Cons x xs)
  show ?case
  proof (cases "msg x \<in> seen")
    case True
    with Cons.prems have e: "e \<in> set (firsts msg seen xs)" by simp
    then have "msg e \<in> msg ` set (firsts msg seen xs)" by blast
    then have "msg e \<notin> seen" by (simp add: firsts_msgs)
    with True have "msg x \<noteq> msg e" by auto
    with Cons.IH [OF e] show ?thesis by simp
  next
    case False
    with Cons.prems have "e = x \<or> e \<in> set (firsts msg (insert (msg x) seen) xs)" by simp
    then show ?thesis
    proof
      assume "e = x" then show ?thesis by simp
    next
      assume e: "e \<in> set (firsts msg (insert (msg x) seen) xs)"
      then have "msg e \<in> msg ` set (firsts msg (insert (msg x) seen) xs)" by blast
      then have "msg x \<noteq> msg e" by (auto simp: firsts_msgs)
      with Cons.IH [OF e] show ?thesis by simp
    qed
  qed
qed

lemma dedupe_props:
  "distinct (map msg (dedupe msg xs))"
  "subseq (dedupe msg xs) xs"
  "msg ` set (dedupe msg xs) = msg ` set xs"
  "\<forall>e \<in> set (dedupe msg xs). find (\<lambda>x. msg x = msg e) xs = Some e"
  by (simp_all add: dedupe_def dedupe_loop_firsts firsts_distinct firsts_subseq firsts_msgs
      firsts_find)

lemma run_result_errs:
  assumes "run lb n v g = Some (RunOk ret er, v')"
  shows "er = errList_err lb (errs v')"
  using assms
  by (auto simp: run_def run_finish_def Let_def
      split: option.splits dispatch_result.splits if_splits)

text \<open>
  C7. Whenever \<open>run\<close> returns an error list \<open>es\<close>, with \<open>errs v'\<close> the errors accumulated
  in the VM: no two errors of \<open>es\<close> have the same message; \<open>es\<close> is a subsequence of the
  accumulated list (the order is kept); every accumulated message is still there; and
  each error of \<open>es\<close> is the first of the accumulated list with its message.
\<close>

theorem returned_errors_deduplicated:
  assumes "run lb n v g = Some (RunOk ret (Some es), v')"
  shows "distinct (map (Error lb) es) \<and> subseq es (errs v')
         \<and> Error lb ` set es = Error lb ` set (errs v')
         \<and> (\<forall>e \<in> set es. find (\<lambda>x. Error lb x = Error lb e) (errs v') = Some e)"
proof -
  from run_result_errs [OF assms] have "Some es = errList_err lb (errs v')" .
  then have "es = dedupe (Error lb) (errs v')"
    by (simp add: errList_err_def split: if_splits)
  then show ?thesis using dedupe_props [of "Error lb" "errs v'"] by simp
qed

theorem returned_errors_deduplicated_witness:
  "distinct (map (Error ascii_lib) [\<lparr>Inner = ErrUser ''boom'', pe_prefix = ''f:pos: rule A''\<rparr>])
   \<and> subseq [\<lparr>Inner = ErrUser ''boom'', pe_prefix = ''f:pos: rule A''\<rparr>]
        (errs (snd (the (run ascii_lib 100 (new_vm ''f'' ''a'') prog_two_preds))))
   \<and> length (errs (snd (the (run ascii_lib 100 (new_vm ''f'' ''a'') prog_two_preds)))) = 2"
proof -
  let ?r = "run ascii_lib 100 (new_vm ''f'' ''a'') prog_two_preds"
  let ?e = "\<lparr>Inner = ErrUser ''boom'', pe_prefix = ''f:pos: rule A''\<rparr>"
  have "case ?r of None \<Rightarrow> False
        | Some (r, v') \<Rightarrow> r = RunOk (VList [VNil, VNil]) (Some [?e]) \<and> length (errs v') = 2"
    by code_simp
  then have r: "?r = Some (RunOk (VList [VNil, VNil]) (Some [?e]), snd (the ?r))"
    and l: "length (errs (snd (the ?r))) = 2"
    by (auto split: option.splits)
  from returned_errors_deduplicated [OF r] l show ?thesis by simp
qed

subsection \<open>Matchers\<close>

lemma read_runes_code_points:
  "read_runes lb n p = Some (rs, p') \<Longrightarrow> rs = code_points lb n p"
proof (induction n arbitrary: p rs)
  case 0
  then show ?case by simp
next
  case (Suc n)
  show ?case
  proof (cases "read lb p")
    case (Pair r p1)
    with Suc.prems Suc.IH [of p1] show ?thesis
      by (cases r) (auto split: option.splits)
  qed
qed

lemma casefold_literal_read_panics:
  "map (toLower lb) (code_points lb (length val) p) = val
   \<Longrightarrow> read_runes lb (length val) p = None
   \<Longrightarrow> \<exists>e p'. match lb (StringMatcher True val) p = (Raise e, p')"
proof (induction val arbitrary: p)
  case Nil
  then show ?case by simp
next
  case (Cons want rest)
  show ?case
  proof (cases "read lb p")
    case (Pair r p1)
    show ?thesis
    proof (cases r)
      case (Done u)
      with Pair Cons.prems Cons.IH [of p1] show ?thesis
        by (auto simp: Let_def split: option.splits)
    next
      case (Raise e)
      with Pair Cons.prems show ?thesis by (auto simp: Let_def)
    qed
  qed
qed

text \<open>
  C8, as stated, fails. For the value \<open>a\<close> with the ignore-case flag and the input bytes
  \<open>A\<close>, \<open>0xFF\<close>, the one code point read, put to lower case, is the stored value, yet the
  matcher does not return true: the \<open>read\<close> after the comparison finds a byte that is no
  encoding of a rune and panics with \<open>errInvalidEncoding\<close>.
\<close>

theorem casefold_literal_invalid_encoding:
  "map (toLower ascii_lib)
       (code_points ascii_lib (length [97 :: rune]) (parser_on ascii_lib [CHR 0x41, CHR 0xFF]))
     = [97]
   \<and> match ascii_lib (StringMatcher True [97]) (parser_on ascii_lib [CHR 0x41, CHR 0xFF])
     = (Raise (PanicErr errInvalidEncoding),
        \<lparr>data = [CHR 0x41, CHR 0xFF],
           pt = \<lparr>position = \<lparr>line = 1, col = 1, offset = 1\<rparr>, rn = 65533, w = 1\<rparr>\<rparr>)
   \<and> fst (match ascii_lib (StringMatcher True [97]) (parser_on ascii_lib [CHR 0x41, CHR 0xFF]))
     \<noteq> Done True"
  by code_simp

text \<open>
  C8, amended. A string matcher with the ignore-case flag returns true, leaving the parser
  \<open>p'\<close>, exactly when none of the reads that follow the comparisons panics (one read per
  rune of the value) and the runes under the cursor at the successive reads, each put to
  lower case, are the runes of the stored value in order.
\<close>

theorem casefold_literal_match:
  "match lb (StringMatcher True val) p = (Done True, p')
   \<longleftrightarrow> (\<exists>rs. read_runes lb (length val) p = Some (rs, p') \<and> map (toLower lb) rs = val)"
proof (induction val arbitrary: p)
  case Nil
  show ?case by auto
next
  case (Cons want rest)
  show ?case
  proof (cases "read lb p")
    case (Pair r p1)
    show ?thesis
    proof (cases r)
      case (Done u)
      with Pair Cons.IH [of p1] show ?thesis
        by (auto simp: Let_def split: option.splits)
    next
      case (Raise e)
      with Pair show ?thesis by (auto simp: Let_def)
    qed
  qed
qed

theorem casefold_literal_match_witness:
  "match ascii_lib (StringMatcher True [97, 98]) (parser_on ascii_lib ''AB'')
     = (Done True, \<lparr>data = ''AB'',
          pt = \<lparr>position = \<lparr>line = 1, col = 2, offset = 2\<rparr>, rn = 65533, w = 0\<rparr>\<rparr>)
   \<and> (\<exists>rs. read_runes ascii_lib (length [97, 98 :: rune]) (parser_on ascii_lib ''AB'')
          = Some (rs, \<lparr>data = ''AB'',
               pt = \<lparr>position = \<lparr>line = 1, col = 2, offset = 2\<rparr>, rn = 65533, w = 0\<rparr>\<rparr>)
        \<and> map (toLower ascii_lib) rs = [97, 98])"
proof -
  have m: "match ascii_lib (StringMatcher True [97, 98]) (parser_on ascii_lib ''AB'')
     = (Done True, \<lparr>data = ''AB'',
          pt = \<lparr>position = \<lparr>line = 1, col = 2, offset = 2\<rparr>, rn = 65533, w = 0\<rparr>\<rparr>)"
    by code_simp
  from m casefold_literal_match [THEN iffD1, OF m] show ?thesis by simp
qed

text \<open>
  C10. At the end of the input (the offset is the length of the data, the rune under the
  cursor is the error rune with width 0), an inverted character class that does not
  cover the error rune returns true and leaves the parser as it was, whereas the any
  matcher returns false. The library facts used: decoding no bytes gives the error rune
  with width 0, and the error rune is its own lower case.
\<close>

theorem inverted_class_at_eof:
  assumes "offset (position (pt p)) = int (length (data p))"
    and "rn (pt p) = RuneError" and "w (pt p) = 0"
    and "decodeRune lb [] = (RuneError, 0)"
    and "toLower lb RuneError = RuneError"
    and "RuneError \<notin> set chars"
    and "in_ranges RuneError ranges = Some False"
    and "\<forall>cl \<in> set classes. \<not> unicodeIs lb cl RuneError"
  shows "match lb (CharClassMatcher chars ranges classes ic True) p = (Done True, p)
         \<and> match lb AnyMatcher p = (Done False, p)"
proof -
  have rd: "read lb p = (Done (), p)"
    using assms(1-4) by (simp add: read_def Let_def)
  show ?thesis
    using assms(2,5-8) by (simp add: match_charClass_def match_any_def rd peek_def Let_def)
qed

theorem inverted_class_at_eof_witness:
  "match ascii_lib (CharClassMatcher [97] [48, 57] [] False True) (parser_on ascii_lib '''')
     = (Done True, parser_on ascii_lib '''')
   \<and> match ascii_lib AnyMatcher (parser_on ascii_lib '''') = (Done False, parser_on ascii_lib '''')"
proof -
  have p: "parser_on ascii_lib '''' = \<lparr>data = [],
      pt = \<lparr>position = \<lparr>line = 1, col = 0, offset = 0\<rparr>, rn = 65533, w = 0\<rparr>\<rparr>"
    by code_simp
  show ?thesis
    unfolding p
    by (rule inverted_class_at_eof) (simp_all add: RuneError_def ascii_lib_def)
qed

subsection \<open>What no instruction changes\<close>

lemma read_data: "data (snd (read lb p)) = data p"
  by (simp add: read_def Let_def split: prod.splits)

lemma read_data': "read lb p = (r, p') \<Longrightarrow> data p' = data p"
  using read_data [of lb p] by simp

lemma match_string_data: "data (snd (match_string lb ic val p)) = data p"
proof (induction val arbitrary: p)
  case Nil
  show ?case by simp
next
  case (Cons a val)
  show ?case
  proof (cases "read lb p")
    case (Pair r p1)
    then have d: "data p1 = data p" by (rule read_data')
    show ?thesis
    proof (cases r)
      case (Done u)
      with Pair Cons [of p1] d show ?thesis by (simp add: Let_def)
    next
      case (Raise e)
      with Pair d show ?thesis by (simp add: Let_def)
    qed
  qed
qed

lemma match_data: "data (snd (match lb m p)) = data p"
proof (cases m)
  case AnyMatcher
  then show ?thesis
    by (auto simp: match_any_def Let_def dest: read_data' split: prod.splits result.splits)
next
  case (StringMatcher ic val)
  then show ?thesis by (simp add: match_string_data)
next
  case (CharClassMatcher chars ranges classes ic invd)
  then show ?thesis
    by (auto simp: match_charClass_def Let_def dest: read_data'
        split: prod.splits result.splits option.splits bool.splits)
qed

lemma match_data': "match lb m p = (r, p') \<Longrightarrow> data p' = data p"
  using match_data [of lb m p] by simp

lemma static_addErrAt [simp]: "static (addErrAt lb v e rix ps) = static v"
  by (simp add: addErrAt_def static_def Let_def)

lemma op_call_static: "static (sr_vm (op_call v)) = static v"
  by (simp add: op_call_def rt_panic_def static_def split: list.splits)

lemma op_callA_static: "static (sr_vm (op_callA lb ins v)) = static v"
  unfolding op_callA_def Let_def
  by (auto simp: rt_panic_def static_def addErrAt_def Let_def
      split: list.splits option.splits athunk_result.splits)

lemma op_callB_static: "static (sr_vm (op_callB lb ins v)) = static v"
  unfolding op_callB_def Let_def
  by (auto simp: rt_panic_def static_def addErrAt_def Let_def
      split: list.splits option.splits bthunk_result.splits)

lemma op_cumulOrF_static: "static (sr_vm (op_cumulOrF ins v)) = static v"
  by (simp add: op_cumulOrF_def rt_panic_def static_def Let_def split: list.splits val.splits)

lemma op_match_static: "static (sr_vm (op_match lb ins v)) = static v"
  unfolding op_match_def run_matcher_def Let_def
  by (auto simp: rt_panic_def static_def fromMemo_def memoizeMatch_def Let_def
      dest: match_data'
      split: list.splits option.splits prod.splits result.splits if_splits)

lemma op_misc_static:
  "static (sr_vm (op_exit v)) = static v"
  "static (sr_vm (op_jump ins v)) = static v"
  "static (sr_vm (op_jumpIfF ins v)) = static v"
  "static (sr_vm (op_jumpIfT ins v)) = static v"
  "static (sr_vm (op_nilIfF v)) = static v"
  "static (sr_vm (op_nilIfT v)) = static v"
  "static (sr_vm (op_pop ins v)) = static v"
  "static (sr_vm (op_popVJumpIfF ins v)) = static v"
  "static (sr_vm (op_push ins v)) = static v"
  "static (sr_vm (op_restore v)) = static v"
  "static (sr_vm (op_restoreIfF v)) = static v"
  "static (sr_vm (op_return v)) = static v"
  "static (sr_vm (op_storeIfT ins v)) = static v"
  "static (sr_vm (op_takeLOrJump ins v)) = static v"
  by (simp_all add: op_exit_def op_jump_def op_jumpIfF_def op_jumpIfT_def op_nilIfF_def
      op_nilIfT_def op_pop_def a_pop_def op_popVJumpIfF_def op_push_def op_restore_def
      op_restoreIfF_def op_return_def op_storeIfT_def op_takeLOrJump_def
      rt_panic_def static_def Let_def split: list.splits)

lemma static_pc [simp]: "static (v\<lparr>pc := x\<rparr>) = static v"
  by (simp add: static_def)

lemma exec_instr_static: "static (sr_vm (exec_instr lb ins v)) = static v"
  by (cases "op ins")
     (simp_all add: exec_instr_def op_call_static op_callA_static op_callB_static
       op_cumulOrF_static op_match_static op_misc_static)

lemma step_static: "static (sr_vm (step lb v)) = static v"
  by (simp add: step_def exec_instr_static rt_panic_def split: option.splits)


subsection \<open>The result of \<open>run\<close>\<close>

text \<open>
  C1, as stated, fails. For the grammar \<open>A = 'a' {x}\<close> whose action returns the value
  \<open>x\<close> together with an error, and the input \<open>a\<close>, the match succeeds and the error list
  is not empty, yet \<open>Parse\<close> returns the value \<open>x\<close> with the error list, not \<open>nil\<close>.
\<close>

theorem successful_match_value_not_nil:
  "map_option fst (Parse ascii_lib prog_action 100 ''f'' ''a'' [])
     = Some (RunOk (VUser ''x'') (Some [\<lparr>Inner = ErrUser ''boom'', pe_prefix = ''f:pos: rule A''\<rparr>]))
   \<and> map_option fst (Parse ascii_lib prog_action 100 ''f'' ''a'' [])
     \<noteq> Some (RunOk VNil (Some [\<lparr>Inner = ErrUser ''boom'', pe_prefix = ''f:pos: rule A''\<rparr>]))"
  by code_simp

text \<open>
  C1, amended. When the loop of \<open>dispatch\<close> ends with \<open>opExit\<close> popping a value \<open>ret\<close>
  other than \<open>matchFailed\<close>, \<open>run\<close> returns \<open>ret\<close> itself: with no error when the error
  list is empty, and with the deduplicated error list otherwise.
\<close>

theorem successful_match_result:
  assumes "read lb (parser (run_init v g)) = (Done u, p1)"
    and "loop lb n ((run_init v g)\<lparr>parser := p1\<rparr>) = Some (Exit ret v')"
    and "ret \<noteq> VFailed"
  shows "run lb n v g =
           Some (RunOk ret (if errs v' = [] then None else Some (dedupe (Error lb) (errs v'))), v')"
  using assms by (simp add: run_def dispatch_def run_finish_def errList_err_def)

theorem successful_match_result_witness:
  "(case loop ascii_lib 100 ((run_init (new_vm ''f'' ''a'') prog_action)
           \<lparr>parser := snd (read ascii_lib (parser (run_init (new_vm ''f'' ''a'') prog_action)))\<rparr>) of
      Some (Exit x v') \<Rightarrow> x = VUser ''x'' \<and> x \<noteq> VFailed | _ \<Rightarrow> False)
   \<and> map_option fst (run ascii_lib 100 (new_vm ''f'' ''a'') prog_action) =
       Some (RunOk (VUser ''x'')
              (Some [\<lparr>Inner = ErrUser ''boom'', pe_prefix = ''f:pos: rule A''\<rparr>]))"
proof -
  let ?v0 = "run_init (new_vm ''f'' ''a'') prog_action"
  let ?p1 = "snd (read ascii_lib (parser ?v0))"
  let ?l = "loop ascii_lib 100 (?v0\<lparr>parser := ?p1\<rparr>)"
  have "fst (read ascii_lib (parser ?v0)) = Done ()" by code_simp
  then have r: "read ascii_lib (parser ?v0) = (Done (), ?p1)"
    by (simp add: prod_eq_iff)
  have c: "case ?l of Some (Exit x v') \<Rightarrow> x = VUser ''x'' \<and> x \<noteq> VFailed | _ \<Rightarrow> False"
    by code_simp
  then have l: "?l = Some (Exit (VUser ''x'') (sr_vm (the ?l)))"
    by (auto split: option.splits step_result.splits)
  have e: "errs (sr_vm (the ?l)) = [\<lparr>Inner = ErrUser ''boom'', pe_prefix = ''f:pos: rule A''\<rparr>]"
    by code_simp
  have d: "dedupe (Error ascii_lib) [\<lparr>Inner = ErrUser ''boom'', pe_prefix = ''f:pos: rule A''\<rparr>]
           = [\<lparr>Inner = ErrUser ''boom'', pe_prefix = ''f:pos: rule A''\<rparr>]"
    by code_simp
  from successful_match_result [OF r l] have
    "map_option fst (run ascii_lib 100 (new_vm ''f'' ''a'') prog_action) =
       Some (RunOk (VUser ''x'')
              (Some [\<lparr>Inner = ErrUser ''boom'', pe_prefix = ''f:pos: rule A''\<rparr>]))"
    by (simp add: e d)
  with c show ?thesis by blast
qed




subsection \<open>Memoization\<close>

lemma cursor_data: "cursor lb d k = Some p \<Longrightarrow> data p = d"
proof (induction k arbitrary: p)
  case 0
  then show ?case
    by (auto simp: start_parser_def dest!: read_data' split: prod.splits result.splits)
next
  case (Suc k)
  then show ?case
    by (auto dest!: read_data' split: option.splits prod.splits result.splits)
qed

lemma on_chain_data: "on_chain lb d p \<Longrightarrow> data p = d"
  by (auto simp: on_chain_def dest: cursor_data)

lemma read_Done_facts:
  assumes "read lb p = (Done u, p')"
  shows "offset (position (pt p')) = offset (position (pt p)) + w (pt p)"
    and "0 \<le> offset (position (pt p'))"
    and "decodeRune lb (drop (nat (offset (position (pt p')))) (data p)) = (rn (pt p'), nat (w (pt p')))"
    and "0 \<le> w (pt p')"
  using assms
  by (auto simp: read_def Let_def split: if_splits prod.splits)

lemma cursor_facts:
  assumes "cursor lb d k = Some p"
  shows "0 \<le> offset (position (pt p))"
    and "decodeRune lb (drop (nat (offset (position (pt p)))) d) = (rn (pt p), nat (w (pt p)))"
    and "0 \<le> w (pt p)"
proof -
  have "\<exists>q u. read lb q = (Done u, p) \<and> data q = d"
  proof (cases k)
    case 0
    with assms show ?thesis
      by (auto simp: start_parser_def split: prod.splits result.splits)
  next
    case (Suc j)
    with assms show ?thesis
      by (auto dest: cursor_data split: option.splits prod.splits result.splits)
  qed
  then obtain q u where q: "read lb q = (Done u, p)" "data q = d" by blast
  from read_Done_facts [OF q(1)] q(2)
  show "0 \<le> offset (position (pt p))"
    and "decodeRune lb (drop (nat (offset (position (pt p)))) d) = (rn (pt p), nat (w (pt p)))"
    and "0 \<le> w (pt p)"
    by simp_all
qed

lemma cursor_fix:
  assumes ok: "decode_ok lb" and c: "cursor lb d k = Some p" and w0: "w (pt p) = 0"
  shows "read lb p = (Done (), p)"
proof -
  from cursor_facts [OF c] w0 have dec: "decodeRune lb (drop (nat (offset (position (pt p)))) d) = (rn (pt p), 0)"
    and off: "0 \<le> offset (position (pt p))" by simp_all
  from ok dec have r: "rn (pt p) = RuneError" by (simp add: decode_ok_def)
  have dd: "data p = d" using c by (rule cursor_data)
  have "\<exists>q u. read lb q = (Done u, p) \<and> data q = d"
  proof (cases k)
    case 0
    with c show ?thesis
      by (auto simp: start_parser_def split: prod.splits result.splits)
  next
    case (Suc j)
    with c show ?thesis
      by (auto dest: cursor_data split: option.splits prod.splits result.splits)
  qed
  then obtain q u where q: "read lb q = (Done u, p)" "data q = d" by blast
  then have len: "offset (position (pt p)) \<le> int (length d)"
    by (auto simp: read_def Let_def split: if_splits prod.splits)
  show ?thesis
    using dec r off len w0 dd
    by (simp add: read_def Let_def)
qed

lemma cursor_step_offset:
  assumes "cursor lb d k = Some p" and "cursor lb d (Suc k) = Some q"
  shows "offset (position (pt q)) = offset (position (pt p)) + w (pt p)"
  using assms by (auto dest: read_Done_facts(1) split: option.splits prod.splits result.splits)

lemma cursor_prefix: "cursor lb d (j + i) = Some q \<Longrightarrow> \<exists>p. cursor lb d j = Some p"
  by (induction i arbitrary: q) (auto split: option.splits)

lemma cursor_ahead:
  assumes ok: "decode_ok lb"
  shows "cursor lb d j = Some p \<Longrightarrow> cursor lb d (j + i) = Some q \<Longrightarrow>
         (w (pt p) = 0 \<longrightarrow> q = p) \<and>
         (0 < w (pt p) \<longrightarrow> 0 < i \<longrightarrow> offset (position (pt p)) < offset (position (pt q))) \<and>
         offset (position (pt p)) \<le> offset (position (pt q))"
proof (induction i arbitrary: q)
  case 0
  then show ?case by simp
next
  case (Suc i)
  from Suc.prems(2) obtain q0 where q0: "cursor lb d (j + i) = Some q0"
    by (auto split: option.splits)
  from Suc.IH [OF Suc.prems(1) q0] have ih:
    "w (pt p) = 0 \<longrightarrow> q0 = p"
    "offset (position (pt p)) \<le> offset (position (pt q0))" by simp_all
  from Suc.prems(2) have s: "cursor lb d (Suc (j + i)) = Some q" by simp
  from cursor_step_offset [OF q0 s] have o: "offset (position (pt q)) = offset (position (pt q0)) + w (pt q0)" .
  from cursor_facts(3) [OF q0] have wq: "0 \<le> w (pt q0)" .
  show ?case
  proof (cases "w (pt p) = 0")
    case True
    with ih have e: "q0 = p" by simp
    from cursor_fix [OF ok q0] True e have "read lb q0 = (Done (), q0)" by simp
    with s q0 have "q = q0" by simp
    with e True show ?thesis by simp
  next
    case False
    with cursor_facts(3) [OF Suc.prems(1)] have pos: "0 < w (pt p)" by simp
    show ?thesis
    proof (cases "i = 0")
      case True
      with q0 Suc.prems(1) have "q0 = p" by simp
      with o pos show ?thesis by simp
    next
      case False
      with Suc.IH [OF Suc.prems(1) q0] pos have "offset (position (pt p)) < offset (position (pt q0))"
        by simp
      with o wq pos show ?thesis by simp
    qed
  qed
qed

lemma cursor_unique_le:
  assumes ok: "decode_ok lb" and p: "cursor lb d j = Some p" and q: "cursor lb d (j + i) = Some q"
    and e: "offset (position (pt p)) = offset (position (pt q))"
  shows "q = p"
proof (cases "i = 0")
  case True
  with p q show ?thesis by simp
next
  case False
  with cursor_ahead [OF ok p q] e cursor_facts(3) [OF p] show ?thesis
    by (cases "w (pt p) = 0") auto
qed

lemma on_chain_unique:
  assumes ok: "decode_ok lb" and p: "on_chain lb d p" and q: "on_chain lb d q"
    and e: "offset (position (pt p)) = offset (position (pt q))"
  shows "p = q"
proof -
  from p q obtain j k where j: "cursor lb d j = Some p" and k: "cursor lb d k = Some q"
    by (auto simp: on_chain_def)
  show ?thesis
  proof (cases "j \<le> k")
    case True
    then obtain i where "k = j + i" by (auto simp: le_iff_add)
    with cursor_unique_le [OF ok j _ e] k show ?thesis by simp
  next
    case False
    then obtain i where "j = k + i" by (metis le_iff_add nat_le_linear)
    with cursor_unique_le [OF ok k _ e [symmetric]] j show ?thesis by simp
  qed
qed

lemma read_on_chain:
  assumes "on_chain lb d p" and "read lb p = (Done u, p')"
  shows "on_chain lb d p'"
proof -
  from assms(1) obtain k where "cursor lb d k = Some p" by (auto simp: on_chain_def)
  with assms(2) have "cursor lb d (Suc k) = Some p'" by simp
  then show ?thesis unfolding on_chain_def by blast
qed

lemma match_string_on_chain:
  "on_chain lb d p \<Longrightarrow> match_string lb ic val p = (Done ok, p') \<Longrightarrow> on_chain lb d p'"
proof (induction val arbitrary: p)
  case Nil
  then show ?case by simp
next
  case (Cons a val)
  show ?case
  proof (cases "read lb p")
    case (Pair r p1)
    show ?thesis
    proof (cases r)
      case (Done u)
      with Pair Cons.prems(1) have c1: "on_chain lb d p1" by (auto intro: read_on_chain)
      from Cons.prems(2) Pair Done Cons.IH [OF c1] Cons.prems(1) show ?thesis
        by (auto simp: Let_def split: if_splits)
    next
      case (Raise e)
      with Pair Cons.prems show ?thesis by (auto simp: Let_def split: if_splits)
    qed
  qed
qed

lemma match_on_chain:
  assumes "on_chain lb d p" and "match lb m p = (Done ok, p')"
  shows "on_chain lb d p'"
proof (cases m)
  case AnyMatcher
  with assms show ?thesis
    by (auto simp: match_any_def Let_def intro: read_on_chain split: prod.splits result.splits)
next
  case (StringMatcher ic val)
  with assms show ?thesis by (auto intro: match_string_on_chain)
next
  case (CharClassMatcher chars ranges classes ic invd)
  with assms show ?thesis
    by (auto simp: match_charClass_def Let_def intro: read_on_chain
        split: prod.splits result.splits option.splits bool.splits if_splits)
qed


lemma tw_cur_frame: "cur_frame (tw m c b v) = cur_frame v"
  by (simp add: cur_frame_def tw_def)

lemma tw_fields [simp]:
  "v_stack (tw m c b v) = v_stack v" "p_stack (tw m c b v) = p_stack v"
  "i_stack (tw m c b v) = i_stack v" "l_stack (tw m c b v) = l_stack v"
  "a_stack (tw m c b v) = a_stack v" "a_under (tw m c b v) = a_under v"
  "pc (tw m c b v) = pc v" "pg (tw m c b v) = pg v" "parser (tw m c b v) = parser v"
  "cur (tw m c b v) = cur v" "ffp (tw m c b v) = ffp v" "errs (tw m c b v) = errs v"
  "memo (tw m c b v) = m" "memoize (tw m c b v) = b" "matchCnt (tw m c b v) = c"
  "recover (tw m c b v) = recover v" "filename (tw m c b v) = filename v"
  by (simp_all add: tw_def)

lemma tw_call: "op_call (tw m c b v) = map_sr (tw m c b) (op_call v)"
  by (simp add: op_call_def rt_panic_def tw_def split: list.splits)

lemma tw_callA: "op_callA lb ins (tw m c b v) = map_sr (tw m c b) (op_callA lb ins v)"
  unfolding op_callA_def Let_def
  by (auto simp: rt_panic_def tw_def addErrAt_def cur_frame_def Let_def
      split: list.splits option.splits athunk_result.splits)

lemma tw_callB: "op_callB lb ins (tw m c b v) = map_sr (tw m c b) (op_callB lb ins v)"
  unfolding op_callB_def Let_def
  by (auto simp: rt_panic_def tw_def addErrAt_def cur_frame_def Let_def
      split: list.splits option.splits bthunk_result.splits)

lemma tw_misc:
  "op_cumulOrF ins (tw m c b v) = map_sr (tw m c b) (op_cumulOrF ins v)"
  "op_exit (tw m c b v) = map_sr (tw m c b) (op_exit v)"
  "op_jump ins (tw m c b v) = map_sr (tw m c b) (op_jump ins v)"
  "op_jumpIfF ins (tw m c b v) = map_sr (tw m c b) (op_jumpIfF ins v)"
  "op_jumpIfT ins (tw m c b v) = map_sr (tw m c b) (op_jumpIfT ins v)"
  "op_nilIfF (tw m c b v) = map_sr (tw m c b) (op_nilIfF v)"
  "op_nilIfT (tw m c b v) = map_sr (tw m c b) (op_nilIfT v)"
  "op_pop ins (tw m c b v) = map_sr (tw m c b) (op_pop ins v)"
  "op_popVJumpIfF ins (tw m c b v) = map_sr (tw m c b) (op_popVJumpIfF ins v)"
  "op_push ins (tw m c b v) = map_sr (tw m c b) (op_push ins v)"
  "op_restore (tw m c b v) = map_sr (tw m c b) (op_restore v)"
  "op_restoreIfF (tw m c b v) = map_sr (tw m c b) (op_restoreIfF v)"
  "op_return (tw m c b v) = map_sr (tw m c b) (op_return v)"
  "op_storeIfT ins (tw m c b v) = map_sr (tw m c b) (op_storeIfT ins v)"
  "op_takeLOrJump ins (tw m c b v) = map_sr (tw m c b) (op_takeLOrJump ins v)"
  by (simp_all add: op_cumulOrF_def op_exit_def op_jump_def op_jumpIfF_def op_jumpIfT_def
      op_nilIfF_def op_nilIfT_def op_pop_def a_pop_def op_popVJumpIfF_def op_push_def
      op_restore_def op_restoreIfF_def op_return_def op_storeIfT_def op_takeLOrJump_def
      rt_panic_def tw_def Let_def split: list.splits val.splits)

lemma tw_pc: "(tw m c b v)\<lparr>pc := x\<rparr> = tw m c b (v\<lparr>pc := x\<rparr>)"
  by (simp add: tw_def)

lemma tw_exec_other:
  "op ins \<noteq> opMatch \<Longrightarrow> exec_instr lb ins (tw m c b v) = map_sr (tw m c b) (exec_instr lb ins v)"
  by (cases "op ins") (simp_all add: exec_instr_def tw_call tw_callA tw_callB tw_misc)

lemma tw_fetch: "fetch (tw m c b v) = fetch v"
  by (simp add: fetch_def)

lemma tw_step_other:
  assumes "fetch v = Some ins" and "op ins \<noteq> opMatch"
  shows "step lb (tw m c b v) = map_sr (tw m c b) (step lb v)"
  using assms by (simp add: step_def tw_fetch tw_pc tw_exec_other)

lemma entry_ok_mono: "entry_ok lb d g fo ix off res \<Longrightarrow> fo \<le> fo' \<Longrightarrow> entry_ok lb d g fo' ix off res"
  unfolding entry_ok_def
  by (fastforce split: prod.splits result.splits if_splits)

lemma parser_pt_eq: "data p = d \<Longrightarrow> p\<lparr>pt := s\<rparr> = \<lparr>data = d, pt = s\<rparr>"
  by simp

lemma parser_self: "data p = d \<Longrightarrow> \<lparr>data = d, pt = pt p\<rparr> = p"
  by simp

lemma memo_inv_tame:
  assumes "memo_inv lb d g v" and "tame v v'"
  shows "memo_inv lb d g v'"
proof -
  from assms(1) have dd: "data (parser v) = d" by (auto simp: memo_inv_def dest: on_chain_data)
  from assms(1) have c: "on_chain lb d \<lparr>data = d, pt = pt (parser v)\<rparr>"
    using parser_self [OF dd] by (simp add: memo_inv_def)
  from assms dd c show ?thesis
    unfolding memo_inv_def tame_def
    by (auto simp: parser_pt_eq [OF dd])
qed

lemma tame_addErrAt: "tame v (addErrAt lb v e rix ps)"
  by (auto simp: tame_def addErrAt_def Let_def)

lemma tame_call: "op_call v = Next v' \<Longrightarrow> tame v v'"
  by (auto simp: op_call_def rt_panic_def tame_def split: list.splits)

lemma tame_callA: "op_callA lb ins v = Next v' \<Longrightarrow> tame v v'"
  unfolding op_callA_def Let_def
  by (auto simp: rt_panic_def tame_def addErrAt_def Let_def
      split: list.splits option.splits athunk_result.splits if_splits)

lemma tame_callB: "op_callB lb ins v = Next v' \<Longrightarrow> tame v v'"
  unfolding op_callB_def Let_def
  by (auto simp: rt_panic_def tame_def addErrAt_def Let_def
      split: list.splits option.splits bthunk_result.splits if_splits)

lemma tame_misc:
  "op_cumulOrF ins v = Next v' \<Longrightarrow> tame v v'"
  "op_jump ins v = Next v' \<Longrightarrow> tame v v'"
  "op_jumpIfF ins v = Next v' \<Longrightarrow> tame v v'"
  "op_jumpIfT ins v = Next v' \<Longrightarrow> tame v v'"
  "op_nilIfF v = Next v' \<Longrightarrow> tame v v'"
  "op_nilIfT v = Next v' \<Longrightarrow> tame v v'"
  "op_pop ins v = Next v' \<Longrightarrow> tame v v'"
  "op_popVJumpIfF ins v = Next v' \<Longrightarrow> tame v v'"
  "op_push ins v = Next v' \<Longrightarrow> tame v v'"
  "op_restore v = Next v' \<Longrightarrow> tame v v'"
  "op_restoreIfF v = Next v' \<Longrightarrow> tame v v'"
  "op_return v = Next v' \<Longrightarrow> tame v v'"
  "op_storeIfT ins v = Next v' \<Longrightarrow> tame v v'"
  "op_takeLOrJump ins v = Next v' \<Longrightarrow> tame v v'"
  by (auto simp: op_cumulOrF_def op_exit_def op_jump_def op_jumpIfF_def op_jumpIfT_def
      op_nilIfF_def op_nilIfT_def op_pop_def a_pop_def op_popVJumpIfF_def op_push_def
      op_restore_def op_restoreIfF_def op_return_def op_storeIfT_def op_takeLOrJump_def
      rt_panic_def tame_def Let_def split: list.splits val.splits if_splits)

lemma tame_pc: "tame (v\<lparr>pc := x\<rparr>) v' \<Longrightarrow> tame v v'"
  by (simp add: tame_def)

lemma tame_exec_other:
  "op ins \<noteq> opMatch \<Longrightarrow> exec_instr lb ins v = Next v' \<Longrightarrow> tame v v'"
  by (cases "op ins")
     (auto simp: exec_instr_def op_exit_def rt_panic_def
       dest: tame_call tame_callA tame_callB tame_misc split: list.splits)

lemma tame_step_other:
  assumes "fetch v = Some ins" and "op ins \<noteq> opMatch" and "step lb v = Next v'"
  shows "tame v v'"
  using assms by (auto simp: step_def dest: tame_exec_other intro: tame_pc)

lemma erase_upd [simp]:
  "erase (v\<lparr>pc := x1\<rparr>) = (erase v)\<lparr>pc := x1\<rparr>"
  "erase (v\<lparr>parser := x2\<rparr>) = (erase v)\<lparr>parser := x2\<rparr>"
  "erase (v\<lparr>v_stack := x3\<rparr>) = (erase v)\<lparr>v_stack := x3\<rparr>"
  "erase (v\<lparr>ffp := x4\<rparr>) = (erase v)\<lparr>ffp := x4\<rparr>"
  "erase (v\<lparr>memo := x5\<rparr>) = erase v"
  "erase (v\<lparr>matchCnt := x6\<rparr>) = erase v"
  by (simp_all add: erase_def tw_def)

lemma erase_parser_same [simp]: "(erase v)\<lparr>parser := parser v\<rparr> = erase v"
  by (simp add: erase_def tw_def)

lemma erase_tw [simp]: "erase (tw m c b v) = erase v"
  by (simp add: erase_def tw_def)

lemma tw_erase: "tw (memo v) (matchCnt v) (memoize v) (erase v) = v"
  by (simp add: erase_def tw_def)

lemma erase_fields:
  assumes "erase a = erase b"
  shows "parser a = parser b" "pc a = pc b" "pg a = pg b" "v_stack a = v_stack b"
    "ffp a = ffp b" "p_stack a = p_stack b"
proof -
  have "parser (erase a) = parser (erase b)" "pc (erase a) = pc (erase b)"
    "pg (erase a) = pg (erase b)" "v_stack (erase a) = v_stack (erase b)"
    "ffp (erase a) = ffp (erase b)" "p_stack (erase a) = p_stack (erase b)"
    using assms by simp_all
  then show "parser a = parser b" "pc a = pc b" "pg a = pg b" "v_stack a = v_stack b"
    "ffp a = ffp b" "p_stack a = p_stack b"
    by (simp_all add: erase_def)
qed

lemma sim_sr_map:
  "sim_sr (map_sr (tw m c b) r) (map_sr (tw m' c' b') r)"
  by (cases r) simp_all

lemma other_sim:
  assumes e: "erase vm = erase vp" and f: "fetch vm = Some ins" and o: "op ins \<noteq> opMatch"
  shows "sim_sr (step lb vm) (step lb vp)"
proof -
  let ?e = "erase vm"
  have fe: "fetch ?e = Some ins" using f by (simp add: erase_def tw_fetch)
  have "step lb vm = step lb (tw (memo vm) (matchCnt vm) (memoize vm) ?e)"
    by (simp add: tw_erase)
  also have "\<dots> = map_sr (tw (memo vm) (matchCnt vm) (memoize vm)) (step lb ?e)"
    using fe o by (rule tw_step_other)
  finally have a: "step lb vm = map_sr (tw (memo vm) (matchCnt vm) (memoize vm)) (step lb ?e)" .
  have "step lb vp = step lb (tw (memo vp) (matchCnt vp) (memoize vp) ?e)"
    by (simp add: e tw_erase)
  also have "\<dots> = map_sr (tw (memo vp) (matchCnt vp) (memoize vp)) (step lb ?e)"
    using fe o by (rule tw_step_other)
  finally have b: "step lb vp = map_sr (tw (memo vp) (matchCnt vp) (memoize vp)) (step lb ?e)" .
  show ?thesis unfolding a b by (rule sim_sr_map)
qed

lemma match_hit_sim:
  assumes ok: "decode_ok lb" and inv: "memo_inv lb d g vm" and mz: "memoize vm"
    and np: "\<not> memoize vp" and e: "erase vm = erase vp"
    and f: "fetch vm = Some ins"
    and hit: "memo vm (pc vm) = Some m" "m (offset (position (pt (parser vm)))) = Some res"
  shows "sim_sr (op_match lb ins (vm\<lparr>pc := pc vm + 1\<rparr>)) (op_match lb ins (vp\<lparr>pc := pc vp + 1\<rparr>))
         \<and> (\<forall>vm'. op_match lb ins (vm\<lparr>pc := pc vm + 1\<rparr>) = Next vm' \<longrightarrow> memo_inv lb d g vm')"
proof -
  note ef = erase_fields [OF e]
  from inv have g: "pg vm = g" and ch: "on_chain lb d (parser vm)"
    and ps: "\<forall>s \<in> set (p_stack vm). on_chain lb d \<lparr>data = d, pt = s\<rparr>"
    and en: "\<forall>ix m off res. memo vm ix = Some m \<longrightarrow> m off = Some res \<longrightarrow>
        entry_ok lb d g (offset (ffp_pos (ffp vm))) ix off res"
    by (simp_all add: memo_inv_def)
  from ch have dd: "data (parser vm) = d" by (rule on_chain_data)
  from en hit have "entry_ok lb d g (offset (ffp_pos (ffp vm))) (pc vm)
      (offset (position (pt (parser vm)))) res" by blast
  then obtain p a0 rest where p: "on_chain lb d p"
    "offset (position (pt p)) = offset (position (pt (parser vm)))"
    and ix: "unat (pc vm) < length (instrs g)" "args (instrs g ! unat (pc vm)) = a0 # rest"
    and a0: "unat a0 < length (pg_ms g)"
    and mt: "case match lb (pg_ms g ! unat a0) p of
           (Done ok, p') \<Rightarrow>
             (if ok then (\<exists>b. sliceFrom p' (pt p) = Some b \<and> res = \<lparr>mr_v = VBytes b, mr_pt = pt p'\<rparr>)
              else res = \<lparr>mr_v = VFailed, mr_pt = pt p\<rparr>
                   \<and> offset (position (pt (parser vm))) \<le> offset (ffp_pos (ffp vm)))
         | (Raise e, p') \<Rightarrow> False"
    unfolding entry_ok_def by (elim exE conjE) (rule that, assumption+)
  from on_chain_unique [OF ok p(1) ch p(2)] have pe: "p = parser vm" .
  from f g have ins: "instrs g ! unat (pc vm) = ins"
    by (auto simp: fetch_def split: if_splits)
  from ix ins have ar: "args ins = a0 # rest" by simp
  obtain r p' where m1: "match lb (pg_ms g ! unat a0) (parser vm) = (r, p')"
    by (cases "match lb (pg_ms g ! unat a0) (parser vm)")
  from mt m1 pe obtain okb where r: "r = Done okb" by (cases r) auto
  from m1 have dp: "data p' = d" using dd by (auto dest: match_data')
  from m1 r ch have cp: "on_chain lb d p'" by (auto intro: match_on_chain)
  have pp: "(parser vm)\<lparr>pt := pt p'\<rparr> = p'" using dd dp by simp
  have lhs: "op_match lb ins (vm\<lparr>pc := pc vm + 1\<rparr>)
        = Next (vm\<lparr>pc := pc vm + 1, parser := (parser vm)\<lparr>pt := mr_pt res\<rparr>,
                   v_stack := mr_v res # v_stack vm\<rparr>)"
    using mz hit by (simp add: op_match_def fromMemo_def Let_def)
  show ?thesis
  proof (cases okb)
    case True
    with mt m1 pe r obtain b where b: "sliceFrom p' (pt (parser vm)) = Some b"
      "res = \<lparr>mr_v = VBytes b, mr_pt = pt p'\<rparr>" by auto
    have rhs: "op_match lb ins (vp\<lparr>pc := pc vp + 1\<rparr>)
        = Next (vp\<lparr>pc := pc vp + 1, parser := p', matchCnt := matchCnt vp + 1,
                   v_stack := VBytes b # v_stack vp\<rparr>)"
      using np ar a0 m1 r True b(1) ef g
      by (simp add: op_match_def run_matcher_def Let_def)
    have inv': "memo_inv lb d g (vm\<lparr>pc := pc vm + 1, parser := (parser vm)\<lparr>pt := mr_pt res\<rparr>,
                   v_stack := mr_v res # v_stack vm\<rparr>)"
      using g cp ps en b(2) pp by (simp add: memo_inv_def)
    show ?thesis unfolding lhs rhs using inv' b(2) pp e ef by simp
  next
    case False
    with mt m1 pe r have b: "res = \<lparr>mr_v = VFailed, mr_pt = pt (parser vm)\<rparr>"
      "offset (position (pt (parser vm))) \<le> offset (ffp_pos (ffp vm))" by auto
    have rhs: "op_match lb ins (vp\<lparr>pc := pc vp + 1\<rparr>)
        = Next (vp\<lparr>pc := pc vp + 1, parser := parser vp, matchCnt := matchCnt vp + 1,
                   v_stack := VFailed # v_stack vp\<rparr>)"
      using np ar a0 m1 r False b(2) ef g dd dp
      by (simp add: op_match_def run_matcher_def Let_def)
    have inv': "memo_inv lb d g (vm\<lparr>pc := pc vm + 1, parser := (parser vm)\<lparr>pt := mr_pt res\<rparr>,
                   v_stack := mr_v res # v_stack vm\<rparr>)"
      using g ch ps en b(1) by (simp add: memo_inv_def)
    have "erase (vm\<lparr>pc := pc vm + 1, parser := (parser vm)\<lparr>pt := mr_pt res\<rparr>,
                   v_stack := mr_v res # v_stack vm\<rparr>)
          = (erase vm)\<lparr>pc := pc vm + 1, v_stack := VFailed # v_stack vm\<rparr>"
      using b(1) by (simp add: erase_def tw_def)
    then show ?thesis unfolding lhs rhs using inv' e ef by (simp add: erase_def tw_def)
  qed
qed

lemma entries_insert:
  assumes old: "\<forall>ix m off res. M ix = Some m \<longrightarrow> m off = Some res \<longrightarrow> entry_ok lb d g fo ix off res"
    and le: "fo \<le> fo'" and new: "entry_ok lb d g fo' ix0 off0 res0"
  shows "\<forall>ix m off res.
           (M(ix0 \<mapsto> (case M ix0 of None \<Rightarrow> Map.empty | Some m \<Rightarrow> m)(off0 \<mapsto> res0))) ix = Some m
           \<longrightarrow> m off = Some res \<longrightarrow> entry_ok lb d g fo' ix off res"
proof (intro allI impI)
  fix ix m off res
  assume a: "(M(ix0 \<mapsto> (case M ix0 of None \<Rightarrow> Map.empty | Some m \<Rightarrow> m)(off0 \<mapsto> res0))) ix = Some m"
    and b: "m off = Some res"
  show "entry_ok lb d g fo' ix off res"
  proof (cases "ix = ix0 \<and> off = off0")
    case True
    with a b new show ?thesis by auto
  next
    case False
    with a b have "\<exists>m'. M ix = Some m' \<and> m' off = Some res"
      by (auto split: if_splits option.splits)
    with old have "entry_ok lb d g fo ix off res" by blast
    then show ?thesis using le by (rule entry_ok_mono)
  qed
qed

lemma match_miss_sim:
  assumes inv: "memo_inv lb d g vm" and mz: "memoize vm"
    and np: "\<not> memoize vp" and e: "erase vm = erase vp"
    and f: "fetch vm = Some ins"
  shows "sim_sr (run_matcher lb ins (vm\<lparr>pc := pc vm + 1\<rparr>) (pt (parser vm)))
                (run_matcher lb ins (vp\<lparr>pc := pc vp + 1\<rparr>) (pt (parser vp)))
         \<and> (\<forall>vm'. run_matcher lb ins (vm\<lparr>pc := pc vm + 1\<rparr>) (pt (parser vm)) = Next vm'
                \<longrightarrow> memo_inv lb d g vm')"
proof -
  note ef = erase_fields [OF e]
  let ?start = "pt (parser vm)"
  let ?off = "offset (position ?start)"
  let ?fo = "offset (ffp_pos (ffp vm))"
  from inv have g: "pg vm = g" and ch: "on_chain lb d (parser vm)"
    and ps: "\<forall>s \<in> set (p_stack vm). on_chain lb d \<lparr>data = d, pt = s\<rparr>"
    and en: "\<forall>ix m off res. memo vm ix = Some m \<longrightarrow> m off = Some res \<longrightarrow>
        entry_ok lb d g ?fo ix off res"
    by (simp_all add: memo_inv_def)
  from ch have dd: "data (parser vm) = d" by (rule on_chain_data)
  from f g have ins: "instrs g ! unat (pc vm) = ins" and ixl: "unat (pc vm) < length (instrs g)"
    by (auto simp: fetch_def split: if_splits)
  have e1: "erase (vm\<lparr>pc := pc vm + 1\<rparr>) = erase (vp\<lparr>pc := pc vp + 1\<rparr>)"
    using e ef by simp
  show ?thesis
  proof (cases "args ins")
    case Nil
    then show ?thesis using e1 by (simp add: run_matcher_def rt_panic_def)
  next
    case (Cons a0 rest)
    show ?thesis
    proof (cases "length (pg_ms g) \<le> unat a0")
      case True
      then show ?thesis using Cons e1 g ef by (simp add: run_matcher_def)
    next
      case False
      then have a0: "unat a0 < length (pg_ms g)" by simp
      obtain r p' where m1: "match lb (pg_ms g ! unat a0) (parser vm) = (r, p')"
        by (cases "match lb (pg_ms g ! unat a0) (parser vm)")
      from m1 have dp: "data p' = d" using dd by (auto dest: match_data')
      show ?thesis
      proof (cases r)
        case (Raise x)
        then show ?thesis using Cons a0 m1 e1 g ef
          by (simp add: run_matcher_def Let_def)
      next
        case (Done okb)
        from m1 Done ch have cp: "on_chain lb d p'" by (auto intro: match_on_chain)
        show ?thesis
        proof (cases okb)
          case True
          show ?thesis
          proof (cases "sliceFrom p' ?start")
            case None
            then show ?thesis using Cons a0 m1 Done True e1 g ef mz np
              by (simp add: run_matcher_def Let_def memoizeMatch_def rt_panic_def)
          next
            case (Some b)
            let ?res = "\<lparr>mr_v = VBytes b, mr_pt = pt p'\<rparr>"
            let ?M = "(memo vm)(pc vm \<mapsto> (case memo vm (pc vm) of None \<Rightarrow> Map.empty | Some m \<Rightarrow> m)
                        (?off \<mapsto> ?res))"
            have new: "entry_ok lb d g ?fo (pc vm) ?off ?res"
              unfolding entry_ok_def
              apply (rule exI [of _ "parser vm"], rule exI [of _ a0], rule exI [of _ rest])
              using ch ixl ins Cons a0 m1 Done True Some by simp
            have ens: "\<forall>ix m off res. ?M ix = Some m \<longrightarrow> m off = Some res \<longrightarrow>
                entry_ok lb d g ?fo ix off res"
              by (rule entries_insert [OF en _ new]) simp
            have lhs: "run_matcher lb ins (vm\<lparr>pc := pc vm + 1\<rparr>) ?start
                = Next (vm\<lparr>pc := pc vm + 1, parser := p', memo := ?M,
                           matchCnt := matchCnt vm + 1, v_stack := VBytes b # v_stack vm\<rparr>)"
              using Cons a0 m1 Done True Some g mz
              by (simp add: run_matcher_def Let_def memoizeMatch_def)
            have rhs: "run_matcher lb ins (vp\<lparr>pc := pc vp + 1\<rparr>) (pt (parser vp))
                = Next (vp\<lparr>pc := pc vp + 1, parser := p',
                           matchCnt := matchCnt vp + 1, v_stack := VBytes b # v_stack vp\<rparr>)"
              using Cons a0 m1 Done True Some g ef np
              by (simp add: run_matcher_def Let_def)
            have inv': "memo_inv lb d g (vm\<lparr>pc := pc vm + 1, parser := p', memo := ?M,
                           matchCnt := matchCnt vm + 1, v_stack := VBytes b # v_stack vm\<rparr>)"
              unfolding memo_inv_def using g cp ps ens by simp
            show ?thesis unfolding lhs rhs using inv' e ef by simp
          qed
        next
          case False
          let ?res = "\<lparr>mr_v = VFailed, mr_pt = ?start\<rparr>"
          let ?M = "(memo vm)(pc vm \<mapsto> (case memo vm (pc vm) of None \<Rightarrow> Map.empty | Some m \<Rightarrow> m)
                        (?off \<mapsto> ?res))"
          let ?ffp = "(if ?fo < ?off
                       then \<lparr>ffp_pos = position ?start, ffp_ruleNmIx = ruleNmIx ins,
                             ffp_rn = rn ?start, ffp_want = fmtMatcher lb (pg_ms g ! unat a0)\<rparr>
                       else ffp vm)"
          let ?fo' = "offset (ffp_pos ?ffp)"
          have le: "?fo \<le> ?fo'" "?off \<le> ?fo'" by auto
          have new: "entry_ok lb d g ?fo' (pc vm) ?off ?res"
            unfolding entry_ok_def
            apply (rule exI [of _ "parser vm"], rule exI [of _ a0], rule exI [of _ rest])
            using ch ixl ins Cons a0 m1 Done False le(2) by simp
          have ens: "\<forall>ix m off res. ?M ix = Some m \<longrightarrow> m off = Some res \<longrightarrow>
                entry_ok lb d g ?fo' ix off res"
            by (rule entries_insert [OF en le(1) new])
          have pp: "p'\<lparr>pt := ?start\<rparr> = parser vm" using dd dp by simp
          have lhs: "run_matcher lb ins (vm\<lparr>pc := pc vm + 1\<rparr>) ?start
                = Next (vm\<lparr>pc := pc vm + 1, memo := ?M,
                           matchCnt := matchCnt vm + 1, ffp := ?ffp,
                           v_stack := VFailed # v_stack vm\<rparr>)"
            using Cons a0 m1 Done False g mz pp
            by (simp add: run_matcher_def Let_def memoizeMatch_def)
          have rhs: "run_matcher lb ins (vp\<lparr>pc := pc vp + 1\<rparr>) (pt (parser vp))
                = Next (vp\<lparr>pc := pc vp + 1,
                           matchCnt := matchCnt vp + 1, ffp := ?ffp,
                           v_stack := VFailed # v_stack vp\<rparr>)"
            using Cons a0 m1 Done False g ef np pp
            by (simp add: run_matcher_def Let_def)
          have inv': "memo_inv lb d g (vm\<lparr>pc := pc vm + 1, memo := ?M,
                           matchCnt := matchCnt vm + 1, ffp := ?ffp,
                           v_stack := VFailed # v_stack vm\<rparr>)"
            unfolding memo_inv_def using g ch ps ens by simp
          show ?thesis unfolding lhs rhs using inv' e ef by simp
        qed
      qed
    qed
  qed
qed

lemma memoize_step: "step lb v = Next v' \<Longrightarrow> memoize v' = memoize v"
  using step_static [of lb v] by (simp add: static_def)

lemma step_sim:
  assumes ok: "decode_ok lb" and inv: "memo_inv lb d g vm" and mz: "memoize vm"
    and np: "\<not> memoize vp" and e: "erase vm = erase vp"
  shows "sim_sr (step lb vm) (step lb vp) \<and> (\<forall>vm'. step lb vm = Next vm' \<longrightarrow> memo_inv lb d g vm')"
proof -
  note ef = erase_fields [OF e]
  have fe: "fetch vp = fetch vm" using ef by (simp add: fetch_def)
  show ?thesis
  proof (cases "fetch vm")
    case None
    then show ?thesis using fe e by (simp add: step_def rt_panic_def)
  next
    case (Some ins)
    show ?thesis
    proof (cases "op ins = opMatch")
      case False
      have s: "sim_sr (step lb vm) (step lb vp)" using e Some False by (rule other_sim)
      have "\<forall>vm'. step lb vm = Next vm' \<longrightarrow> memo_inv lb d g vm'"
        using tame_step_other [OF Some False] memo_inv_tame [OF inv] by blast
      with s show ?thesis by simp
    next
      case True
      have sm: "step lb vm = op_match lb ins (vm\<lparr>pc := pc vm + 1\<rparr>)"
        and sp: "step lb vp = op_match lb ins (vp\<lparr>pc := pc vp + 1\<rparr>)"
        using Some fe True by (simp_all add: step_def exec_instr_def)
      show ?thesis
      proof (cases "\<exists>m res. memo vm (pc vm) = Some m \<and> m (offset (position (pt (parser vm)))) = Some res")
        case True
        then obtain m res where "memo vm (pc vm) = Some m"
          "m (offset (position (pt (parser vm)))) = Some res" by blast
        from match_hit_sim [OF ok inv mz np e Some this] show ?thesis
          unfolding sm sp .
      next
        case False
        then have "fromMemo (vm\<lparr>pc := pc vm + 1\<rparr>) (pc vm) (pt (parser vm)) = None"
          by (auto simp: fromMemo_def split: option.splits)
        then have a: "op_match lb ins (vm\<lparr>pc := pc vm + 1\<rparr>)
                      = run_matcher lb ins (vm\<lparr>pc := pc vm + 1\<rparr>) (pt (parser vm))"
          by (simp add: op_match_def Let_def)
        have b: "op_match lb ins (vp\<lparr>pc := pc vp + 1\<rparr>)
                      = run_matcher lb ins (vp\<lparr>pc := pc vp + 1\<rparr>) (pt (parser vp))"
          using np by (simp add: op_match_def Let_def)
        from match_miss_sim [OF inv mz np e Some] show ?thesis
          unfolding sm sp a b .
      qed
    qed
  qed
qed









lemma setOptions_keeps:
  "parser (setOptions opts v) = parser v \<and> memo (setOptions opts v) = memo v"
proof (induction opts arbitrary: v)
  case Nil
  show ?case by simp
next
  case (Cons a opts)
  show ?case using Cons [of "setOption a v"] by (cases a) simp_all
qed


lemma decode_ok_ascii: "decode_ok ascii_lib"
  by (auto simp: decode_ok_def ascii_lib_def split: list.splits if_splits)


subsection \<open>The farthest failure position\<close>

lemma step_inv:
  assumes ok: "decode_ok lb" and inv: "memo_inv lb d g v" and mz: "memoize v"
    and st: "step lb v = Next v'"
  shows "memo_inv lb d g v'"
proof -
  have e: "erase v = erase (v\<lparr>memoize := False\<rparr>)" by (simp add: erase_def tw_def)
  from step_sim [OF ok inv mz _ e] st show ?thesis by simp
qed

lemma steps_inv:
  assumes ok: "decode_ok lb"
  shows "memo_inv lb d g v \<Longrightarrow> memoize v \<Longrightarrow> steps lb k v = Some s
         \<Longrightarrow> memo_inv lb d g s \<and> memoize s"
proof (induction k arbitrary: v)
  case 0
  then show ?case by simp
next
  case (Suc k)
  from Suc.prems(3) obtain v' where st: "step lb v = Next v'" and r: "steps lb k v' = Some s"
    by (auto split: step_result.splits)
  from step_inv [OF ok Suc.prems(1,2) st] have i: "memo_inv lb d g v'" .
  from memoize_step [OF st] Suc.prems(2) have m: "memoize v'" by simp
  from Suc.IH [OF i m r] show ?case .
qed

lemma steps_static: "steps lb k v = Some s \<Longrightarrow> static s = static v"
proof (induction k arbitrary: v)
  case 0
  then show ?case by simp
next
  case (Suc k)
  from Suc.prems obtain v' where st: "step lb v = Next v'" and r: "steps lb k v' = Some s"
    by (auto split: step_result.splits)
  from step_static [of lb v] st have "static v' = static v" by simp
  with Suc.IH [OF r] show ?case by simp
qed

lemma run_matcher_failed:
  assumes "run_matcher lb ins v start = Next v'" and "v_stack v' = VFailed # v_stack v"
  shows "ffp v' = (if offset (ffp_pos (ffp v)) < offset (position start)
                   then \<lparr>ffp_pos = position start, ffp_ruleNmIx = ruleNmIx ins,
                         ffp_rn = rn start,
                         ffp_want = fmtMatcher lb (pg_ms (pg v) ! unat (hd (args ins)))\<rparr>
                   else ffp v)"
  using assms
  unfolding run_matcher_def Let_def
  by (auto simp: rt_panic_def memoizeMatch_def Let_def
      split: list.splits if_splits prod.splits result.splits option.splits)

text \<open>
  C5. \<open>run\<close> starts with the offset \<open>-1\<close> in the farthest failure record. In every state
  \<open>s\<close> that a parse reaches, when the instruction is an \<open>opMatch\<close> that fails (it pushes
  \<open>matchFailed\<close>): if the offset of the cursor is strictly greater than the recorded one,
  the record becomes the position of the cursor, the rule index of the instruction, the
  rune under the cursor and the description of the matcher; otherwise the record stays
  as it is. This holds with and without the memoize option.
\<close>

theorem ffp_update:
  assumes ok: "decode_ok lb"
    and v0: "v0 = run_init (setOptions opts (new_vm fname b)) g"
    and rd: "read lb (parser v0) = (Done u, p1)"
    and reach: "steps lb k (v0\<lparr>parser := p1\<rparr>) = Some s"
    and f: "fetch s = Some ins" and o: "op ins = opMatch"
    and st: "step lb s = Next s'" and failed: "v_stack s' = VFailed # v_stack s"
  shows "offset (ffp_pos (ffp v0)) = - 1 \<and>
         ffp s' = (if offset (ffp_pos (ffp s)) < offset (position (pt (parser s)))
                   then \<lparr>ffp_pos = position (pt (parser s)), ffp_ruleNmIx = ruleNmIx ins,
                         ffp_rn = rn (pt (parser s)),
                         ffp_want = fmtMatcher lb (pg_ms g ! unat (hd (args ins)))\<rparr>
                   else ffp s)"
proof
  show "offset (ffp_pos (ffp v0)) = - 1" by (simp add: v0 run_init_def)
next
  let ?v = "setOptions opts (new_vm fname b)"
  let ?s1 = "s\<lparr>pc := pc s + 1\<rparr>"
  let ?start = "pt (parser s)"
  have pgs: "pg s = g"
    using steps_static [OF reach] by (simp add: static_def v0 run_init_def)
  have sm: "step lb s = op_match lb ins ?s1"
    using f o by (simp add: step_def exec_instr_def)
  show "ffp s' = (if offset (ffp_pos (ffp s)) < offset (position ?start)
                   then \<lparr>ffp_pos = position ?start, ffp_ruleNmIx = ruleNmIx ins,
                         ffp_rn = rn ?start,
                         ffp_want = fmtMatcher lb (pg_ms g ! unat (hd (args ins)))\<rparr>
                   else ffp s)"
  proof (cases "memoize s \<and> (\<exists>m res. memo s (pc s) = Some m \<and> m (offset (position ?start)) = Some res)")
    case True
    then obtain m res where mz: "memoize s" and hit: "memo s (pc s) = Some m"
      "m (offset (position ?start)) = Some res" by blast
    have mz0: "memoize (v0\<lparr>parser := p1\<rparr>)"
      using steps_static [OF reach] mz by (simp add: static_def)
    have st0: "parser ?v = start_parser b" and emp: "memo ?v = Map.empty"
      using setOptions_keeps [of opts "new_vm fname b"]
      by (simp_all add: new_vm_def start_parser_def)
    have c: "on_chain lb b p1"
      unfolding on_chain_def
      by (rule exI [of _ 0]) (use rd st0 v0 in \<open>simp add: run_init_def\<close>)
    have inv0: "memo_inv lb b g (v0\<lparr>parser := p1\<rparr>)"
      using c emp by (simp add: memo_inv_def v0 run_init_def)
    from steps_inv [OF ok inv0 mz0 reach] have inv: "memo_inv lb b g s" by simp
    then have "entry_ok lb b g (offset (ffp_pos (ffp s))) (pc s) (offset (position ?start)) res"
      using hit by (simp add: memo_inv_def)
    then obtain p a0 rest where p: "on_chain lb b p"
      "offset (position (pt p)) = offset (position ?start)"
      "unat (pc s) < length (instrs g)" "args (instrs g ! unat (pc s)) = a0 # rest"
      "unat a0 < length (pg_ms g)"
      and mt: "case match lb (pg_ms g ! unat a0) p of
           (Done okb, p') \<Rightarrow>
             (if okb then (\<exists>bs. sliceFrom p' (pt p) = Some bs \<and> res = \<lparr>mr_v = VBytes bs, mr_pt = pt p'\<rparr>)
              else res = \<lparr>mr_v = VFailed, mr_pt = pt p\<rparr>
                   \<and> offset (position ?start) \<le> offset (ffp_pos (ffp s)))
         | (Raise e, p') \<Rightarrow> False"
      unfolding entry_ok_def by (elim exE conjE) (rule that, assumption+)
    have s': "s' = ?s1\<lparr>parser := (parser s)\<lparr>pt := mr_pt res\<rparr>,
                            v_stack := mr_v res # v_stack s\<rparr>"
      using st sm mz hit by (simp add: op_match_def fromMemo_def Let_def)
    from s' failed have rf: "mr_v res = VFailed" by simp
    obtain r p' where m1: "match lb (pg_ms g ! unat a0) p = (r, p')"
      by (cases "match lb (pg_ms g ! unat a0) p")
    from mt m1 obtain okb where r: "r = Done okb" by (cases r) auto
    from mt m1 r rf have "offset (position ?start) \<le> offset (ffp_pos (ffp s))"
      by (cases okb) auto
    with s' show ?thesis by simp
  next
    case False
    then have "memoize s \<longrightarrow> fromMemo ?s1 (pc s) ?start = None"
      by (auto simp: fromMemo_def split: option.splits)
    then have "op_match lb ins ?s1 = run_matcher lb ins ?s1 ?start"
      by (simp add: op_match_def Let_def)
    with st sm have r: "run_matcher lb ins ?s1 ?start = Next s'" by simp
    from run_matcher_failed [OF r] failed pgs show ?thesis by simp
  qed
qed

theorem ffp_update_witness:
  "decode_ok ascii_lib
   \<and> offset (ffp_pos (ffp (run_init (setOptions [] (new_vm ''f'' ''b'')) prog_action))) = - 1
   \<and> map_option (\<lambda>s. (pc s, ffp s, v_stack s))
       (steps ascii_lib 7 ((run_init (setOptions [] (new_vm ''f'' ''b'')) prog_action)
          \<lparr>parser := parser_on ascii_lib ''b''\<rparr>))
     = Some (5, \<lparr>ffp_pos = \<lparr>line = 0, col = 0, offset = - 1\<rparr>, ffp_ruleNmIx = 0, ffp_rn = 0,
                 ffp_want = []\<rparr>, [])
   \<and> map_option (\<lambda>s. (ffp s, v_stack s))
       (steps ascii_lib 8 ((run_init (setOptions [] (new_vm ''f'' ''b'')) prog_action)
          \<lparr>parser := parser_on ascii_lib ''b''\<rparr>))
     = Some (\<lparr>ffp_pos = \<lparr>line = 1, col = 1, offset = 0\<rparr>, ffp_ruleNmIx = 0, ffp_rn = 98,
              ffp_want = ''matcher''\<rparr>, [VFailed])"
proof -
  let ?v0 = "run_init (setOptions [] (new_vm ''f'' ''b'')) prog_action"
  let ?p1 = "parser_on ascii_lib ''b''"
  let ?s = "the (steps ascii_lib 7 (?v0\<lparr>parser := ?p1\<rparr>))"
  let ?s' = "sr_vm (step ascii_lib ?s)"
  let ?ins = "the (fetch ?s)"
  have rd: "read ascii_lib (parser ?v0) = (Done (), ?p1)"
  proof -
    have "fst (read ascii_lib (parser ?v0)) = Done ()" by code_simp
    moreover have "snd (read ascii_lib (parser ?v0)) = ?p1" by code_simp
    ultimately show ?thesis by (simp add: prod_eq_iff)
  qed
  have a: "map_option (\<lambda>s. (pc s, ffp s, v_stack s)) (steps ascii_lib 7 (?v0\<lparr>parser := ?p1\<rparr>))
     = Some (5, \<lparr>ffp_pos = \<lparr>line = 0, col = 0, offset = - 1\<rparr>, ffp_ruleNmIx = 0, ffp_rn = 0,
                 ffp_want = []\<rparr>, [])"
    by code_simp
  then have reach: "steps ascii_lib 7 (?v0\<lparr>parser := ?p1\<rparr>) = Some ?s"
    by (cases "steps ascii_lib 7 (?v0\<lparr>parser := ?p1\<rparr>)") auto
  have "case fetch ?s of Some i \<Rightarrow> op i = opMatch \<and> ruleNmIx i = 0 \<and> args i = [0] | None \<Rightarrow> False"
    by code_simp
  then have f: "fetch ?s = Some ?ins" and o: "op ?ins = opMatch"
    and ri: "ruleNmIx ?ins = 0" and ar: "args ?ins = [0]"
    by (auto split: option.splits)
  have "case step ascii_lib ?s of Next x \<Rightarrow> v_stack x = VFailed # v_stack ?s | _ \<Rightarrow> False"
    by code_simp
  then have st: "step ascii_lib ?s = Next ?s'" and failed: "v_stack ?s' = VFailed # v_stack ?s"
    by (auto split: step_result.splits)
  have b: "map_option (\<lambda>s. (ffp s, v_stack s)) (steps ascii_lib 8 (?v0\<lparr>parser := ?p1\<rparr>))
     = Some (\<lparr>ffp_pos = \<lparr>line = 1, col = 1, offset = 0\<rparr>, ffp_ruleNmIx = 0, ffp_rn = 98,
              ffp_want = ''matcher''\<rparr>, [VFailed])"
    by code_simp
  from ffp_update [OF decode_ok_ascii refl rd reach f o st failed]
  have "offset (ffp_pos (ffp ?v0)) = - 1" by simp
  with decode_ok_ascii a b show ?thesis by blast
qed

subsection \<open>Instruction blocks and their invocations\<close>

lemma fetch_instr_at: "fetch s = instr_at (pg s) (pc s)"
  by (simp add: fetch_def instr_at_def)

lemma has_block_nth:
  "has_block g b blk \<Longrightarrow> k < length blk \<Longrightarrow>
   \<exists>ins. instr_at g (b + of_nat k) = Some ins \<and> op ins = op (blk ! k) \<and> args ins = args (blk ! k)"
proof (induction blk arbitrary: b k)
  case Nil
  then show ?case by simp
next
  case (Cons i blk)
  show ?case
  proof (cases k)
    case 0
    with Cons.prems show ?thesis by (auto split: option.splits)
  next
    case (Suc j)
    with Cons.prems have "has_block g (b + 1) blk" "j < length blk" by simp_all
    from Cons.IH [OF this] Suc show ?thesis by (simp add: add.assoc)
  qed
qed

lemma has_blockD:
  assumes "has_block g b blk" and "k < length blk" and "pg s = g" and "pc s = b + of_nat k"
  shows "\<exists>ins. fetch s = Some ins \<and> op ins = op (blk ! k) \<and> args ins = args (blk ! k)"
  using has_block_nth [OF assms(1,2)] assms(3,4) by (simp add: fetch_instr_at)

lemma pg_step: "step lb s = Next s1 \<Longrightarrow> pg s1 = pg s"
  using step_static [of lb s] by (simp add: static_def)

subsection \<open>Runs of several instructions\<close>

lemma steps_Suc:
  "steps lb (Suc n) s = Some s' \<longleftrightarrow> (\<exists>s1. step lb s = Next s1 \<and> steps lb n s1 = Some s')"
  by (auto split: step_result.splits)

lemma steps_add:
  "steps lb (m + n) s = (case steps lb m s of None \<Rightarrow> None | Some x \<Rightarrow> steps lb n x)"
proof (induction m arbitrary: s)
  case 0
  show ?case by simp
next
  case (Suc m)
  show ?case by (cases "step lb s") (simp_all add: Suc)
qed

lemma steps_prefix:
  assumes "steps lb n s = Some s'" and "m \<le> n"
  shows "\<exists>x. steps lb m s = Some x \<and> steps lb (n - m) x = Some s'"
proof -
  from assms(2) have "n = m + (n - m)" by simp
  with assms(1) have "steps lb (m + (n - m)) s = Some s'" by simp
  then show ?thesis by (auto simp: steps_add split: option.splits)
qed

lemma within_0: "within lb d s 0 s' \<longleftrightarrow> s' = s \<and> d < length (i_stack s)"
  by (auto simp: within_def)

lemma within_Suc:
  "within lb d s (Suc n) s' \<longleftrightarrow>
     d < length (i_stack s) \<and> (\<exists>s1. step lb s = Next s1 \<and> within lb d s1 n s')"
proof
  assume w: "within lb d s (Suc n) s'"
  then have "steps lb (Suc n) s = Some s'" unfolding within_def by blast
  then obtain s1 where s1: "step lb s = Next s1" "steps lb n s1 = Some s'"
    unfolding steps_Suc by blast
  have d0: "d < length (i_stack s)"
    using w by (auto simp: within_def dest: spec [of _ 0])
  have "\<forall>m \<le> n. \<forall>x. steps lb m s1 = Some x \<longrightarrow> d < length (i_stack x)"
  proof (intro allI impI)
    fix m x assume "m \<le> n" "steps lb m s1 = Some x"
    then have "Suc m \<le> Suc n" "steps lb (Suc m) s = Some x" using s1 by simp_all
    with w show "d < length (i_stack x)" unfolding within_def by blast
  qed
  with s1 d0 show "d < length (i_stack s) \<and> (\<exists>s1. step lb s = Next s1 \<and> within lb d s1 n s')"
    by (auto simp: within_def)
next
  assume a: "d < length (i_stack s) \<and> (\<exists>s1. step lb s = Next s1 \<and> within lb d s1 n s')"
  then obtain s1 where s1: "step lb s = Next s1" "within lb d s1 n s'" by blast
  have "\<forall>m \<le> Suc n. \<forall>x. steps lb m s = Some x \<longrightarrow> d < length (i_stack x)"
  proof (intro allI impI)
    fix m x assume m: "m \<le> Suc n" "steps lb m s = Some x"
    show "d < length (i_stack x)"
    proof (cases m)
      case 0
      with m a show ?thesis by simp
    next
      case (Suc k)
      with m s1 show ?thesis by (auto simp: within_def)
    qed
  qed
  with s1 show "within lb d s (Suc n) s'" by (auto simp: within_def)
qed

lemma within_cases:
  assumes "within lb d s n s'"
  obtains (here) "n = 0" "s' = s"
  | (further) n1 s1 where "n = Suc n1" "step lb s = Next s1" "within lb d s1 n1 s'"
  using assms by (cases n) (auto simp: within_0 within_Suc)

lemma first_return_0: "first_return lb d s 0 s' \<longleftrightarrow> s' = s \<and> length (i_stack s) \<le> d"
  by (auto simp: first_return_def)

lemma first_return_Suc:
  "first_return lb d s (Suc n) s' \<longleftrightarrow>
     d < length (i_stack s) \<and> (\<exists>s1. step lb s = Next s1 \<and> first_return lb d s1 n s')"
proof
  assume w: "first_return lb d s (Suc n) s'"
  then have "steps lb (Suc n) s = Some s'" unfolding first_return_def by blast
  then obtain s1 where s1: "step lb s = Next s1" "steps lb n s1 = Some s'"
    unfolding steps_Suc by blast
  have d0: "d < length (i_stack s)"
    using w by (auto simp: first_return_def dest: spec [of _ 0])
  have "\<forall>m < n. \<forall>x. steps lb m s1 = Some x \<longrightarrow> d < length (i_stack x)"
  proof (intro allI impI)
    fix m x assume "m < n" "steps lb m s1 = Some x"
    then have "Suc m < Suc n" "steps lb (Suc m) s = Some x" using s1 by simp_all
    with w show "d < length (i_stack x)" unfolding first_return_def by blast
  qed
  with s1 d0 w show "d < length (i_stack s) \<and> (\<exists>s1. step lb s = Next s1 \<and> first_return lb d s1 n s')"
    by (auto simp: first_return_def)
next
  assume a: "d < length (i_stack s) \<and> (\<exists>s1. step lb s = Next s1 \<and> first_return lb d s1 n s')"
  then obtain s1 where s1: "step lb s = Next s1" "first_return lb d s1 n s'" by blast
  have "\<forall>m < Suc n. \<forall>x. steps lb m s = Some x \<longrightarrow> d < length (i_stack x)"
  proof (intro allI impI)
    fix m x assume m: "m < Suc n" "steps lb m s = Some x"
    show "d < length (i_stack x)"
    proof (cases m)
      case 0
      with m a show ?thesis by simp
    next
      case (Suc k)
      with m s1 show ?thesis by (auto simp: first_return_def)
    qed
  qed
  with s1 show "first_return lb d s (Suc n) s'" by (auto simp: first_return_def)
qed

lemma first_return_deeper:
  assumes "first_return lb d s n s'" and "d < length (i_stack s)"
  obtains n1 s1 where "n = Suc n1" "step lb s = Next s1" "first_return lb d s1 n1 s'"
  using assms by (cases n) (auto simp: first_return_0 first_return_Suc)

text \<open>A run that ends at depth at most \<open>e\<close> passes through a first state of depth at most \<open>e\<close>.\<close>

lemma within_split:
  "within lb d s n s' \<Longrightarrow> length (i_stack s') \<le> e \<Longrightarrow>
   \<exists>k y. k \<le> n \<and> first_return lb e s k y \<and> within lb d y (n - k) s'"
proof (induction n arbitrary: s)
  case 0
  then show ?case by (auto simp: within_0 first_return_0)
next
  case (Suc n)
  from Suc.prems(1) obtain s1 where d0: "d < length (i_stack s)"
    and s1: "step lb s = Next s1" "within lb d s1 n s'"
    by (auto simp: within_Suc)
  show ?case
  proof (cases "length (i_stack s) \<le> e")
    case True
    then have "first_return lb e s 0 s" by (simp add: first_return_0)
    with Suc.prems(1) show ?thesis by (intro exI [of _ 0] exI [of _ s]) simp
  next
    case False
    from Suc.IH [OF s1(2) Suc.prems(2)] obtain k y where
      k: "k \<le> n" "first_return lb e s1 k y" "within lb d y (n - k) s'" by blast
    from False s1(1) k(2) have "first_return lb e s (Suc k) y"
      by (auto simp: first_return_Suc)
    with k show ?thesis by (intro exI [of _ "Suc k"] exI [of _ y]) simp
  qed
qed

lemma first_return_split:
  "first_return lb d s n s' \<Longrightarrow> d \<le> e \<Longrightarrow>
   \<exists>k y. k \<le> n \<and> first_return lb e s k y \<and> first_return lb d y (n - k) s'"
proof (induction n arbitrary: s)
  case 0
  then show ?case by (auto simp: first_return_0)
next
  case (Suc n)
  from Suc.prems(1) obtain s1 where d0: "d < length (i_stack s)"
    and s1: "step lb s = Next s1" "first_return lb d s1 n s'"
    by (auto simp: first_return_Suc)
  show ?case
  proof (cases "length (i_stack s) \<le> e")
    case True
    then have "first_return lb e s 0 s" by (simp add: first_return_0)
    with Suc.prems(1) show ?thesis by (intro exI [of _ 0] exI [of _ s]) simp
  next
    case False
    from Suc.IH [OF s1(2) Suc.prems(2)] obtain k y where
      k: "k \<le> n" "first_return lb e s1 k y" "first_return lb d y (n - k) s'" by blast
    from False s1(1) k(2) have "first_return lb e s (Suc k) y"
      by (auto simp: first_return_Suc)
    with k show ?thesis by (intro exI [of _ "Suc k"] exI [of _ y]) simp
  qed
qed

subsection \<open>What one instruction does to the program counter and the I and L stacks\<close>

lemma step_fetch:
  assumes "fetch s = Some ins"
  shows "step lb s = exec_instr lb ins (s\<lparr>pc := pc s + 1\<rparr>)"
  using assms by (simp add: step_def)

lemma match_ctl:
  assumes "op_match lb ins v = Next v'"
  shows "pc v' = pc v \<and> i_stack v' = i_stack v \<and> l_stack v' = l_stack v"
  using assms unfolding op_match_def run_matcher_def Let_def
  by (auto simp: rt_panic_def fromMemo_def memoizeMatch_def Let_def
      split: list.splits option.splits prod.splits result.splits if_splits)

lemma callA_ctl:
  assumes "op_callA lb ins v = Next v'"
  shows "pc v' = pc v \<and> i_stack v' = i_stack v \<and> l_stack v' = l_stack v"
  using assms unfolding op_callA_def Let_def
  by (auto simp: rt_panic_def addErrAt_def Let_def
      split: list.splits option.splits athunk_result.splits if_splits)

lemma callB_ctl:
  assumes "op_callB lb ins v = Next v'"
  shows "pc v' = pc v \<and> i_stack v' = i_stack v \<and> l_stack v' = l_stack v"
  using assms unfolding op_callB_def Let_def
  by (auto simp: rt_panic_def addErrAt_def Let_def
      split: list.splits option.splits bthunk_result.splits if_splits)

lemma step_neutral:
  assumes f: "fetch s = Some ins" and n: "neutral (op ins)" and st: "step lb s = Next s1"
  shows "pc s1 = pc s + 1 \<and> i_stack s1 = i_stack s \<and> l_stack s1 = l_stack s"
proof -
  from st f have e: "exec_instr lb ins (s\<lparr>pc := pc s + 1\<rparr>) = Next s1" by (simp add: step_fetch)
  from n consider "op ins = opCallA" | "op ins = opCallB" | "op ins = opMatch"
    | "op ins \<in> {opCumulOrF, opNilIfF, opNilIfT, opRestore, opRestoreIfF, opStoreIfT}"
    by (auto simp: neutral_def)
  then show ?thesis
  proof cases
    case 1
    with e callA_ctl [of lb ins "s\<lparr>pc := pc s + 1\<rparr>" s1] show ?thesis
      by (simp add: exec_instr_def)
  next
    case 2
    with e callB_ctl [of lb ins "s\<lparr>pc := pc s + 1\<rparr>" s1] show ?thesis
      by (simp add: exec_instr_def)
  next
    case 3
    with e match_ctl [of lb ins "s\<lparr>pc := pc s + 1\<rparr>" s1] show ?thesis
      by (simp add: exec_instr_def)
  next
    case 4
    with e show ?thesis
      by (auto simp: exec_instr_def op_cumulOrF_def op_nilIfF_def op_nilIfT_def op_restore_def
          op_restoreIfF_def op_storeIfT_def rt_panic_def Let_def
          split: list.splits val.splits if_splits)
  qed
qed

lemma step_push:
  assumes f: "fetch s = Some ins" and o: "op ins = opPush" and a: "args ins = a0 # rest"
    and st: "step lb s = Next s1"
  shows "pc s1 = pc s + 1
         \<and> i_stack s1 = (if a0 = istackID then hd rest # i_stack s else i_stack s)
         \<and> l_stack s1 = (if a0 = lstackID then rest # l_stack s else l_stack s)"
  using st f o a
  by (auto simp: step_fetch exec_instr_def op_push_def rt_panic_def pstackID_def istackID_def
      vstackID_def astackID_def lstackID_def split: list.splits if_splits)

lemma step_pop:
  assumes f: "fetch s = Some ins" and o: "op ins = opPop" and a: "args ins = a0 # rest"
    and st: "step lb s = Next s1"
  shows "pc s1 = pc s + 1 \<and> i_stack s1 = i_stack s
         \<and> (if a0 = lstackID then l_stack s = hd (l_stack s) # l_stack s1 else l_stack s1 = l_stack s)"
  using st f o a
  by (auto simp: step_fetch exec_instr_def op_pop_def a_pop_def rt_panic_def pstackID_def
      istackID_def vstackID_def astackID_def lstackID_def split: list.splits if_splits)

lemma step_popA:
  assumes f: "fetch s = Some ins" and o: "op ins = opPop" and a: "args ins = [astackID]"
    and st: "step lb s = Next s1"
  shows "v_stack s1 = v_stack s \<and> callCnt s1 = callCnt s"
  using st f o a
  by (auto simp: step_fetch exec_instr_def op_pop_def a_pop_def rt_panic_def pstackID_def
      istackID_def vstackID_def astackID_def lstackID_def split: list.splits if_splits)

lemma step_popL:
  assumes f: "fetch s = Some ins" and o: "op ins = opPop" and a: "args ins = [lstackID]"
    and st: "step lb s = Next s1"
  shows "v_stack s1 = v_stack s \<and> callCnt s1 = callCnt s"
  using st f o a
  by (auto simp: step_fetch exec_instr_def op_pop_def a_pop_def rt_panic_def pstackID_def
      istackID_def vstackID_def astackID_def lstackID_def split: list.splits if_splits)

lemma step_jump:
  assumes f: "fetch s = Some ins" and o: "op ins = opJump" and a: "args ins = a0 # rest"
    and st: "step lb s = Next s1"
  shows "pc s1 = a0 \<and> i_stack s1 = i_stack s \<and> l_stack s1 = l_stack s"
  using st f o a by (auto simp: step_fetch exec_instr_def op_jump_def)

lemma step_cond:
  assumes f: "fetch s = Some ins" and o: "op ins \<in> {opJumpIfF, opJumpIfT, opPopVJumpIfF}"
    and a: "args ins = a0 # rest" and st: "step lb s = Next s1"
  shows "(pc s1 = a0 \<or> pc s1 = pc s + 1) \<and> i_stack s1 = i_stack s \<and> l_stack s1 = l_stack s"
  using st f o a
  by (auto simp: step_fetch exec_instr_def op_jumpIfF_def op_jumpIfT_def op_popVJumpIfF_def
      rt_panic_def Let_def split: list.splits if_splits)

lemma step_jumpIfT:
  assumes f: "fetch s = Some ins" and o: "op ins = opJumpIfT" and a: "args ins = a0 # rest"
    and st: "step lb s = Next s1"
  shows "v_stack s \<noteq> [] \<and> pc s1 = (if hd (v_stack s) \<noteq> VFailed then a0 else pc s + 1)
         \<and> v_stack s1 = v_stack s \<and> callCnt s1 = callCnt s"
proof (cases "v_stack s")
  case Nil
  with st f o show ?thesis
    by (simp add: step_fetch exec_instr_def op_jumpIfT_def rt_panic_def)
next
  case (Cons x vs)
  with st f o a show ?thesis
    by (cases "x = VFailed") (auto simp: step_fetch exec_instr_def op_jumpIfT_def)
qed

lemma step_take:
  assumes f: "fetch s = Some ins" and o: "op ins = opTakeLOrJump" and a: "args ins = a0 # rest"
    and st: "step lb s = Next s1"
  shows "\<exists>l ls. l_stack s = l # ls \<and>
           (case l of
              [] \<Rightarrow> pc s1 = a0 \<and> i_stack s1 = i_stack s \<and> l_stack s1 = l_stack s
            | x # xs \<Rightarrow> pc s1 = pc s + 1 \<and> i_stack s1 = x # i_stack s \<and> l_stack s1 = xs # ls)"
proof (cases "l_stack s")
  case Nil
  with st f o show ?thesis
    by (simp add: step_fetch exec_instr_def op_takeLOrJump_def rt_panic_def)
next
  case (Cons l ls)
  show ?thesis
  proof (cases l)
    case Nil
    with Cons st f o a show ?thesis
      by (auto simp: step_fetch exec_instr_def op_takeLOrJump_def)
  next
    case (Cons x xs)
    with \<open>l_stack s = l # ls\<close> st f o a show ?thesis
      by (auto simp: step_fetch exec_instr_def op_takeLOrJump_def)
  qed
qed

lemma step_call:
  assumes f: "fetch s = Some ins" and o: "op ins = opCall" and st: "step lb s = Next s1"
  shows "\<exists>t is. i_stack s = t # is \<and> pc s1 = t \<and> i_stack s1 = (pc s + 1) # is
                \<and> l_stack s1 = l_stack s"
  using st f o
  by (auto simp: step_fetch exec_instr_def op_call_def rt_panic_def split: list.splits)

lemma step_return:
  assumes f: "fetch s = Some ins" and o: "op ins = opReturn" and st: "step lb s = Next s1"
  shows "\<exists>t is. i_stack s = t # is \<and> pc s1 = t \<and> i_stack s1 = is \<and> l_stack s1 = l_stack s
                \<and> v_stack s1 = v_stack s \<and> callCnt s1 = callCnt s"
  using st f o
  by (auto simp: step_fetch exec_instr_def op_return_def rt_panic_def split: list.splits)

lemma choice_at:
  assumes "has_block g b (encodeChoice r b ls)" and "pg s = g"
  shows "pc s = b \<Longrightarrow> \<exists>i. fetch s = Some i \<and> op i = opPush \<and> args i = lstackID # ls"
    and "pc s = b + 1 \<Longrightarrow> \<exists>i. fetch s = Some i \<and> op i = opTakeLOrJump \<and> args i = [b + 7]"
    and "pc s = b + 2 \<Longrightarrow> \<exists>i. fetch s = Some i \<and> op i = opPush \<and> args i = [astackID]"
    and "pc s = b + 3 \<Longrightarrow> \<exists>i. fetch s = Some i \<and> op i = opCall"
    and "pc s = b + 4 \<Longrightarrow> \<exists>i. fetch s = Some i \<and> op i = opPop \<and> args i = [astackID]"
    and "pc s = b + 5 \<Longrightarrow> \<exists>i. fetch s = Some i \<and> op i = opJumpIfT \<and> args i = [b + 7]"
    and "pc s = b + 6 \<Longrightarrow> \<exists>i. fetch s = Some i \<and> op i = opJump \<and> args i = [b + 1]"
    and "pc s = b + 7 \<Longrightarrow> \<exists>i. fetch s = Some i \<and> op i = opPop \<and> args i = [lstackID]"
    and "pc s = b + 8 \<Longrightarrow> \<exists>i. fetch s = Some i \<and> op i = opReturn"
  using has_blockD [OF assms(1) _ assms(2), of 0] has_blockD [OF assms(1) _ assms(2), of 1]
    has_blockD [OF assms(1) _ assms(2), of 2] has_blockD [OF assms(1) _ assms(2), of 3]
    has_blockD [OF assms(1) _ assms(2), of 4] has_blockD [OF assms(1) _ assms(2), of 5]
    has_blockD [OF assms(1) _ assms(2), of 6] has_blockD [OF assms(1) _ assms(2), of 7]
    has_blockD [OF assms(1) _ assms(2), of 8]
  by (auto simp: encodeChoice_def mk_def)

lemma stack_ids_distinct [simp]:
  "astackID \<noteq> lstackID" "astackID \<noteq> istackID" "lstackID \<noteq> istackID"
  "pstackID \<noteq> lstackID" "pstackID \<noteq> istackID" "vstackID \<noteq> lstackID" "vstackID \<noteq> istackID"
  "lstackID \<noteq> astackID" "istackID \<noteq> astackID" "istackID \<noteq> lstackID"
  by (simp_all add: astackID_def lstackID_def istackID_def pstackID_def vstackID_def)

lemma choice_exit:
  assumes blk: "has_block g b (encodeChoice r b ls)"
    and s: "pg s = g" "pc s = b + 4" "i_stack s = rt # is" "v_stack s = x # vs" "x \<noteq> VFailed"
    and k: "0 < k" and w: "within lb (length is) s k s'"
  shows "pc s' \<in> {b + 5, b + 7, b + 8} \<and> callCnt s' = callCnt s"
proof -
  from k w obtain k1 s1 where 1: "k = Suc k1" "step lb s = Next s1" "within lb (length is) s1 k1 s'"
    by (cases rule: within_cases [OF w]) auto
  from choice_at(5) [OF blk s(1,2)] obtain i4 where i4: "fetch s = Some i4" "op i4 = opPop"
    "args i4 = [astackID]" by blast
  from step_pop [OF i4(1,2) i4(3) 1(2)] step_popA [OF i4 1(2)] pg_step [OF 1(2)] s
  have s1: "pg s1 = g" "pc s1 = b + 5" "i_stack s1 = rt # is" "v_stack s1 = x # vs"
    "callCnt s1 = callCnt s"
    by simp_all
  show ?thesis
  proof (cases rule: within_cases [OF 1(3)])
    case 1
    with s1 show ?thesis by simp
  next
    case (2 k2 s2)
    from choice_at(6) [OF blk s1(1,2)] obtain i5 where i5: "fetch s1 = Some i5" "op i5 = opJumpIfT"
      "args i5 = [b + 7]" by blast
    from step_jumpIfT [OF i5(1,2) i5(3) 2(2)] step_cond [OF i5(1) _ i5(3) 2(2)] i5(2)
      pg_step [OF 2(2)] s1 s(5)
    have s2: "pg s2 = g" "pc s2 = b + 7" "i_stack s2 = rt # is" "callCnt s2 = callCnt s"
      by simp_all
    show ?thesis
    proof (cases rule: within_cases [OF 2(3)])
      case 1
      with s2 show ?thesis by simp
    next
      case (2 k3 s3)
      from choice_at(8) [OF blk s2(1,2)] obtain i7 where i7: "fetch s2 = Some i7" "op i7 = opPop"
        "args i7 = [lstackID]" by blast
      from step_pop [OF i7(1,2) i7(3) 2(2)] step_popL [OF i7 2(2)] pg_step [OF 2(2)] s2
      have s3: "pg s3 = g" "pc s3 = b + 8" "i_stack s3 = rt # is" "callCnt s3 = callCnt s"
        by simp_all
      show ?thesis
      proof (cases rule: within_cases [OF 2(3)])
        case 1
        with s3 show ?thesis by simp
      next
        case (2 k4 s4)
        from choice_at(9) [OF blk s3(1,2)] obtain i8 where i8: "fetch s3 = Some i8"
          "op i8 = opReturn" by blast
        from step_return [OF i8 2(2)] s3 have "i_stack s4 = is" by auto
        with 2(3) show ?thesis by (cases k4) (simp_all add: within_0 within_Suc)
      qed
    qed
  qed
qed

lemma choice_order:
  assumes blk: "has_block g b (encodeChoice r b ls)"
  shows "\<forall>a \<in> set rest. disciplined lb g a \<Longrightarrow> at g s0 (b + 1) (rt # is) (rest # L0)
         \<Longrightarrow> within lb (length is) s0 n s \<Longrightarrow> pc s = b + 1 \<Longrightarrow> i_stack s = rt # is
         \<Longrightarrow> \<exists>j \<le> length rest. l_stack s = drop j rest # L0"
proof (induction rest arbitrary: s0 n)
  case Nil
  from Nil.prems(2) have s0: "pg s0 = g" "pc s0 = b + 1" "i_stack s0 = rt # is"
    "l_stack s0 = [] # L0" by (simp_all add: at_def)
  show ?case
  proof (cases rule: within_cases [OF Nil.prems(3)])
    case 1
    with s0 show ?thesis by simp
  next
    case (2 n1 s1)
    from choice_at(2) [OF blk s0(1,2)] obtain i1 where i1: "fetch s0 = Some i1"
      "op i1 = opTakeLOrJump" "args i1 = [b + 7]" by blast
    from step_take [OF i1(1,2) i1(3) 2(2)] pg_step [OF 2(2)] s0
    have s1: "pg s1 = g" "pc s1 = b + 7" "i_stack s1 = rt # is" by auto
    show ?thesis
    proof (cases rule: within_cases [OF 2(3)])
      case 1
      with s1 Nil.prems(4) show ?thesis by simp
    next
      case (2 n2 s2)
      from choice_at(8) [OF blk s1(1,2)] obtain i7 where i7: "fetch s1 = Some i7" "op i7 = opPop"
        "args i7 = [lstackID]" by blast
      from step_pop [OF i7(1,2) i7(3) 2(2)] pg_step [OF 2(2)] s1
      have s2: "pg s2 = g" "pc s2 = b + 8" "i_stack s2 = rt # is" by simp_all
      show ?thesis
      proof (cases rule: within_cases [OF 2(3)])
        case 1
        with s2 Nil.prems(4) show ?thesis by simp
      next
        case (2 n3 s3)
        from choice_at(9) [OF blk s2(1,2)] obtain i8 where i8: "fetch s2 = Some i8"
          "op i8 = opReturn" by blast
        from step_return [OF i8 2(2)] s2 have "i_stack s3 = is" by auto
        with 2(3) show ?thesis by (cases n3) (simp_all add: within_0 within_Suc)
      qed
    qed
  qed
next
  case (Cons a rest)
  from Cons.prems(2) have s0: "pg s0 = g" "pc s0 = b + 1" "i_stack s0 = rt # is"
    "l_stack s0 = (a # rest) # L0" by (simp_all add: at_def)
  from Cons.prems(1) have da: "disciplined lb g a" and dr: "\<forall>a \<in> set rest. disciplined lb g a"
    by simp_all
  show ?case
  proof (cases rule: within_cases [OF Cons.prems(3)])
    case 1
    with s0 show ?thesis by (intro exI [of _ 0]) simp
  next
    case (2 n1 s1)
    from choice_at(2) [OF blk s0(1,2)] obtain i1 where i1: "fetch s0 = Some i1"
      "op i1 = opTakeLOrJump" "args i1 = [b + 7]" by blast
    from step_take [OF i1(1,2) i1(3) 2(2)] pg_step [OF 2(2)] s0
    have s1: "pg s1 = g" "pc s1 = b + 2" "i_stack s1 = a # rt # is" "l_stack s1 = rest # L0"
      by auto
    show ?thesis
    proof (cases rule: within_cases [OF 2(3)])
      case 1
      with s1 Cons.prems(4) show ?thesis by simp
    next
      case (2 n2 s2)
      from choice_at(3) [OF blk s1(1,2)] obtain i2 where i2: "fetch s1 = Some i2" "op i2 = opPush"
        "args i2 = [astackID]" by blast
      from step_push [OF i2(1,2) i2(3) 2(2)] pg_step [OF 2(2)] s1
      have s2: "pg s2 = g" "pc s2 = b + 3" "i_stack s2 = a # rt # is" "l_stack s2 = rest # L0"
        by simp_all
      show ?thesis
      proof (cases rule: within_cases [OF 2(3)])
        case 1
        with s2 Cons.prems(4) show ?thesis by simp
      next
        case (2 n3 s3)
        from choice_at(4) [OF blk s2(1,2)] obtain i3 where i3: "fetch s2 = Some i3"
          "op i3 = opCall" by blast
        from step_call [OF i3 2(2)] pg_step [OF 2(2)] s2
        have s3: "at g s3 a ((b + 4) # rt # is) (rest # L0)" by (auto simp: at_def)
        from Cons.prems(5) have "length (i_stack s) \<le> length (rt # is)" by simp
        from within_split [OF 2(3) this] obtain k y where
          k: "first_return lb (length (rt # is)) s3 k y" "within lb (length is) y (n3 - k) s"
          by blast
        from da s3 k(1) have y: "at g y (b + 4) (rt # is) (rest # L0)"
          unfolding disciplined_def by blast
        then have y': "pg y = g" "pc y = b + 4" "i_stack y = rt # is" "l_stack y = rest # L0"
          by (simp_all add: at_def)
        show ?thesis
        proof (cases rule: within_cases [OF k(2)])
          case 1
          with y' Cons.prems(4) show ?thesis by simp
        next
          case (2 n4 s4)
          from choice_at(5) [OF blk y'(1,2)] obtain i4 where i4: "fetch y = Some i4"
            "op i4 = opPop" "args i4 = [astackID]" by blast
          from step_pop [OF i4(1,2) i4(3) 2(2)] pg_step [OF 2(2)] y'
          have s4: "pg s4 = g" "pc s4 = b + 5" "i_stack s4 = rt # is" "l_stack s4 = rest # L0"
            by simp_all
          show ?thesis
          proof (cases rule: within_cases [OF 2(3)])
            case 1
            with s4 Cons.prems(4) show ?thesis by simp
          next
            case (2 n5 s5)
            from choice_at(6) [OF blk s4(1,2)] obtain i5 where i5: "fetch s4 = Some i5"
              "op i5 = opJumpIfT" "args i5 = [b + 7]" by blast
            from step_cond [OF i5(1) _ i5(3) 2(2)] i5(2) pg_step [OF 2(2)] s4
            have s5: "pg s5 = g" "pc s5 = b + 7 \<or> pc s5 = b + 6" "i_stack s5 = rt # is"
              "l_stack s5 = rest # L0" by auto
            from s5(2) show ?thesis
            proof
              assume p7: "pc s5 = b + 7"
              show ?thesis
              proof (cases rule: within_cases [OF 2(3)])
                case 1
                with p7 Cons.prems(4) show ?thesis by simp
              next
                case (2 n6 s6)
                from choice_at(8) [OF blk s5(1) p7] obtain i7 where i7: "fetch s5 = Some i7"
                  "op i7 = opPop" "args i7 = [lstackID]" by blast
                from step_pop [OF i7(1,2) i7(3) 2(2)] pg_step [OF 2(2)] s5 p7
                have s6: "pg s6 = g" "pc s6 = b + 8" "i_stack s6 = rt # is" by simp_all
                show ?thesis
                proof (cases rule: within_cases [OF 2(3)])
                  case 1
                  with s6 Cons.prems(4) show ?thesis by simp
                next
                  case (2 n7 s7)
                  from choice_at(9) [OF blk s6(1,2)] obtain i8 where i8: "fetch s6 = Some i8"
                    "op i8 = opReturn" by blast
                  from step_return [OF i8 2(2)] s6 have "i_stack s7 = is" by auto
                  with 2(3) show ?thesis by (cases n7) (simp_all add: within_0 within_Suc)
                qed
              qed
            next
              assume p6: "pc s5 = b + 6"
              show ?thesis
              proof (cases rule: within_cases [OF 2(3)])
                case 1
                with p6 Cons.prems(4) show ?thesis by simp
              next
                case (2 n6 s6)
                from choice_at(7) [OF blk s5(1) p6] obtain i6 where i6: "fetch s5 = Some i6"
                  "op i6 = opJump" "args i6 = [b + 1]" by blast
                from step_jump [OF i6(1,2) i6(3) 2(2)] pg_step [OF 2(2)] s5
                have s6: "at g s6 (b + 1) (rt # is) (rest # L0)" by (simp add: at_def)
                from Cons.IH [OF dr s6 2(3) Cons.prems(4,5)] obtain j where
                  "j \<le> length rest" "l_stack s = drop j rest # L0" by blast
                then show ?thesis by (intro exI [of _ "Suc j"]) simp
              qed
            qed
          qed
        qed
      qed
    qed
  qed
qed

subsection \<open>Ordered choice\<close>

lemma within_chk_within:
  "within_chk lb d s n \<Longrightarrow> within lb d s n (the (steps lb n s))"
proof (induction n arbitrary: s)
  case 0
  then show ?case by (simp add: within_0)
next
  case (Suc n)
  then obtain s1 where s1: "step lb s = Next s1" "within_chk lb d s1 n" "d < length (i_stack s)"
    by (auto split: step_result.splits)
  from Suc.IH [OF s1(2)] s1(1,3) show ?case by (simp add: within_Suc)
qed

lemma within_suffix:
  "within lb d v n s \<Longrightarrow> m \<le> n \<Longrightarrow> steps lb m v = Some x \<Longrightarrow> within lb d x (n - m) s"
proof (induction m arbitrary: v n)
  case 0
  then show ?case by simp
next
  case (Suc m)
  then obtain n1 where n: "n = Suc n1" by (cases n) auto
  from Suc.prems(1) n obtain s1 where s1: "step lb v = Next s1" "within lb d s1 n1 s"
    by (auto simp: within_Suc)
  from Suc.prems(3) s1(1) have "steps lb m s1 = Some x" by simp
  from Suc.IH [OF s1(2) _ this] Suc.prems(2) n show ?case by simp
qed

lemma matcher_at:
  assumes "has_block g a (encodeMatcher r m)" and "pg s = g"
  shows "pc s = a \<Longrightarrow> \<exists>i. fetch s = Some i \<and> op i = opPush \<and> args i = [pstackID]"
    and "pc s = a + 1 \<Longrightarrow> \<exists>i. fetch s = Some i \<and> op i = opMatch"
    and "pc s = a + 2 \<Longrightarrow> \<exists>i. fetch s = Some i \<and> op i = opRestoreIfF"
    and "pc s = a + 3 \<Longrightarrow> \<exists>i. fetch s = Some i \<and> op i = opReturn"
  using has_blockD [OF assms(1) _ assms(2), of 0] has_blockD [OF assms(1) _ assms(2), of 1]
    has_blockD [OF assms(1) _ assms(2), of 2] has_blockD [OF assms(1) _ assms(2), of 3]
  by (auto simp: encodeMatcher_def mk_def)

lemma matcher_disciplined:
  assumes blk: "has_block g a (encodeMatcher r m)"
  shows "disciplined lb g a"
  unfolding disciplined_def
proof (intro allI impI)
  fix s n s' rt "is" L
  assume a: "at g s a (rt # is) L" and fr: "first_return lb (length is) s n s'"
  from a have s: "pg s = g" "pc s = a" "i_stack s = rt # is" "l_stack s = L"
    by (simp_all add: at_def)
  from fr s(3) obtain n1 s1 where 1: "step lb s = Next s1" "first_return lb (length is) s1 n1 s'"
    by (auto elim: first_return_deeper)
  from matcher_at(1) [OF blk s(1,2)] obtain i0 where i0: "fetch s = Some i0" "op i0 = opPush"
    "args i0 = [pstackID]" by blast
  from step_push [OF i0(1,2) i0(3) 1(1)] pg_step [OF 1(1)] s
  have s1: "pg s1 = g" "pc s1 = a + 1" "i_stack s1 = rt # is" "l_stack s1 = L" by simp_all
  from 1(2) s1(3) obtain n2 s2 where 2: "step lb s1 = Next s2"
    "first_return lb (length is) s2 n2 s'"
    by (auto elim: first_return_deeper)
  from matcher_at(2) [OF blk s1(1,2)] obtain i1 where i1: "fetch s1 = Some i1" "op i1 = opMatch"
    by blast
  from step_neutral [OF i1(1) _ 2(1)] i1(2) pg_step [OF 2(1)] s1
  have s2: "pg s2 = g" "pc s2 = a + 2" "i_stack s2 = rt # is" "l_stack s2 = L"
    by (simp_all add: neutral_def)
  from 2(2) s2(3) obtain n3 s3 where 3: "step lb s2 = Next s3"
    "first_return lb (length is) s3 n3 s'"
    by (auto elim: first_return_deeper)
  from matcher_at(3) [OF blk s2(1,2)] obtain i2 where i2: "fetch s2 = Some i2"
    "op i2 = opRestoreIfF" by blast
  from step_neutral [OF i2(1) _ 3(1)] i2(2) pg_step [OF 3(1)] s2
  have s3: "pg s3 = g" "pc s3 = a + 3" "i_stack s3 = rt # is" "l_stack s3 = L"
    by (simp_all add: neutral_def)
  from 3(2) s3(3) obtain n4 s4 where 4: "step lb s3 = Next s4"
    "first_return lb (length is) s4 n4 s'"
    by (auto elim: first_return_deeper)
  from matcher_at(4) [OF blk s3(1,2)] obtain i3 where i3: "fetch s3 = Some i3"
    "op i3 = opReturn" by blast
  from step_return [OF i3 4(1)] pg_step [OF 4(1)] s3
  have s4: "at g s4 rt is L" by (auto simp: at_def)
  then have "i_stack s4 = is" by (simp add: at_def)
  with 4(2) have "s' = s4" by (cases n4) (simp_all add: first_return_0 first_return_Suc)
  with s4 show "at g s' rt is L" by simp
qed

text \<open>
  C4. Take a choice block at \<open>b\<close> with the alternatives \<open>ls\<close>, each of which keeps the
  calling convention, an invocation of the block (entered in \<open>v\<close> with the return address
  \<open>rt\<close> on the I stack), and a state \<open>s\<close> of that invocation (reached before the return
  address is popped). First, whenever the block is at its loop head (\<open>b + 1\<close>), about to
  take the next alternative, the list on top of the L stack is \<open>drop j ls\<close>: the
  alternatives are taken in their order. Second, if earlier in the invocation an
  alternative has returned to the block (to \<open>b + 4\<close>) with a value other than
  \<open>matchFailed\<close> on top of the V stack, then \<open>s\<close> is on the way out of the block
  (at the \<open>opJumpIfT\<close>, the pop of the L stack or the \<open>opReturn\<close>) and no call has been
  executed since: no further alternative is taken or called.
\<close>

theorem choice_left_biased:
  assumes blk: "has_block g b (encodeChoice r b ls)"
    and kids: "\<forall>a \<in> set ls. disciplined lb g a"
    and entry: "pg v = g" "pc v = b" "i_stack v = rt # is"
    and run: "within lb (length is) v n s"
  shows "(pc s = b + 1 \<and> i_stack s = rt # is
            \<longrightarrow> (\<exists>j \<le> length ls. l_stack s = drop j ls # l_stack v))
         \<and> (\<forall>m x. m < n \<and> steps lb m v = Some x \<and> pc x = b + 4 \<and> i_stack x = rt # is
                \<and> v_stack x \<noteq> [] \<and> hd (v_stack x) \<noteq> VFailed
              \<longrightarrow> pc s \<in> {b + 5, b + 7, b + 8} \<and> callCnt s = callCnt x)"
proof (rule conjI)
  show "pc s = b + 1 \<and> i_stack s = rt # is
            \<longrightarrow> (\<exists>j \<le> length ls. l_stack s = drop j ls # l_stack v)"
  proof
  assume h: "pc s = b + 1 \<and> i_stack s = rt # is"
  show "\<exists>j \<le> length ls. l_stack s = drop j ls # l_stack v"
  proof (cases rule: within_cases [OF run])
    case 1
    with h entry show ?thesis by simp
  next
    case (2 n1 s1)
    from choice_at(1) [OF blk entry(1,2)] obtain i0 where i0: "fetch v = Some i0" "op i0 = opPush"
      "args i0 = lstackID # ls" by blast
    from step_push [OF i0(1,2) i0(3) 2(2)] pg_step [OF 2(2)] entry
    have s1: "at g s1 (b + 1) (rt # is) (ls # l_stack v)" by (simp add: at_def)
    from choice_order [OF blk kids s1 2(3)] h show ?thesis by simp
  qed
  qed
next
  show "\<forall>m x. m < n \<and> steps lb m v = Some x \<and> pc x = b + 4 \<and> i_stack x = rt # is
                \<and> v_stack x \<noteq> [] \<and> hd (v_stack x) \<noteq> VFailed
              \<longrightarrow> pc s \<in> {b + 5, b + 7, b + 8} \<and> callCnt s = callCnt x"
  proof (intro allI impI)
  fix m x
  assume h: "m < n \<and> steps lb m v = Some x \<and> pc x = b + 4 \<and> i_stack x = rt # is
                \<and> v_stack x \<noteq> [] \<and> hd (v_stack x) \<noteq> VFailed"
  then obtain y vs where v: "v_stack x = y # vs" "y \<noteq> VFailed" by (cases "v_stack x") auto
  from h have w: "within lb (length is) x (n - m) s"
    using within_suffix [OF run, of m x] by simp
  from h have "steps lb m v = Some x" by simp
  from steps_static [OF this] entry(1) have px: "pg x = g" by (simp add: static_def)
  from h have pos: "0 < n - m" by simp
  from choice_exit [OF blk px _ _ v pos w] h
  show "pc s \<in> {b + 5, b + 7, b + 8} \<and> callCnt s = callCnt x" by simp
  qed
qed

theorem choice_left_biased_witness:
  "has_block prog_choice 12 (encodeChoice 0 12 [4, 8])
   \<and> has_block prog_choice 4 (encodeMatcher 0 0)
   \<and> has_block prog_choice 8 (encodeMatcher 0 1)
   \<and> map_option (\<lambda>s. (pc s, i_stack s))
        (steps ascii_lib 3 ((run_init (new_vm ''f'' ''a'') prog_choice)
           \<lparr>parser := parser_on ascii_lib ''a''\<rparr>)) = Some (12, [3])
   \<and> within_chk ascii_lib 0
        (the (steps ascii_lib 3 ((run_init (new_vm ''f'' ''a'') prog_choice)
           \<lparr>parser := parser_on ascii_lib ''a''\<rparr>))) 10
   \<and> map_option (\<lambda>x. (pc x, i_stack x, v_stack x, callCnt x))
        (steps ascii_lib 8 (the (steps ascii_lib 3 ((run_init (new_vm ''f'' ''a'') prog_choice)
           \<lparr>parser := parser_on ascii_lib ''a''\<rparr>)))) = Some (16, [3], [VBytes ''a''], 2)
   \<and> pc (the (steps ascii_lib 10 (the (steps ascii_lib 3
           ((run_init (new_vm ''f'' ''a'') prog_choice)
              \<lparr>parser := parser_on ascii_lib ''a''\<rparr>))))) \<in> {12 + 5, 12 + 7, 12 + 8}
   \<and> callCnt (the (steps ascii_lib 10 (the (steps ascii_lib 3
           ((run_init (new_vm ''f'' ''a'') prog_choice)
              \<lparr>parser := parser_on ascii_lib ''a''\<rparr>))))) = 2"
proof -
  let ?init = "(run_init (new_vm ''f'' ''a'') prog_choice)\<lparr>parser := parser_on ascii_lib ''a''\<rparr>"
  let ?V = "the (steps ascii_lib 3 ?init)"
  let ?X = "the (steps ascii_lib 8 ?V)"
  let ?fin = "the (steps ascii_lib 10 ?V)"
  have hb: "has_block prog_choice 12 (encodeChoice 0 12 [4, 8])" by code_simp
  have k1: "has_block prog_choice 4 (encodeMatcher 0 0)" by code_simp
  have k2: "has_block prog_choice 8 (encodeMatcher 0 1)" by code_simp
  from k1 k2 have kids: "\<forall>a \<in> set [4, 8]. disciplined ascii_lib prog_choice a"
    by (auto intro: matcher_disciplined)
  have e: "map_option (\<lambda>s. (pc s, i_stack s)) (steps ascii_lib 3 ?init) = Some (12, [3])"
    by code_simp
  then have v: "steps ascii_lib 3 ?init = Some ?V" "pc ?V = 12" "i_stack ?V = [3]"
    by (cases "steps ascii_lib 3 ?init"; simp)+
  from steps_static [OF v(1)] have pgv: "pg ?V = prog_choice"
    by (simp add: static_def run_init_def)
  have wc: "within_chk ascii_lib 0 ?V 10" by code_simp
  from within_chk_within [OF wc] have w: "within ascii_lib (length ([] :: 16 word list)) ?V 10 ?fin"
    by simp
  have xe: "map_option (\<lambda>x. (pc x, i_stack x, v_stack x, callCnt x)) (steps ascii_lib 8 ?V)
            = Some (16, [3], [VBytes ''a''], 2)"
    by code_simp
  then have x: "steps ascii_lib 8 ?V = Some ?X" "pc ?X = 16" "i_stack ?X = [3]"
    "v_stack ?X = [VBytes ''a'']" "callCnt ?X = 2"
    by (cases "steps ascii_lib 8 ?V"; simp)+
  from choice_left_biased [OF hb kids pgv v(2) v(3) w]
  have "\<forall>m x. m < 10 \<and> steps ascii_lib m ?V = Some x \<and> pc x = 12 + 4 \<and> i_stack x = [3]
                \<and> v_stack x \<noteq> [] \<and> hd (v_stack x) \<noteq> VFailed
              \<longrightarrow> pc ?fin \<in> {12 + 5, 12 + 7, 12 + 8} \<and> callCnt ?fin = callCnt x"
    by simp
  then have "pc ?fin \<in> {12 + 5, 12 + 7, 12 + 8} \<and> callCnt ?fin = callCnt ?X"
    using x by (elim allE [of _ 8] allE [of _ ?X]) simp
  with x(5) have "pc ?fin \<in> {12 + 5, 12 + 7, 12 + 8}" "callCnt ?fin = 2" by simp_all
  with hb k1 k2 e wc xe show ?thesis by blast
qed

subsection \<open>Repetition over a choice\<close>

text \<open>C3. A failed invocation of an expression block leaves the cursor where it was when
  the block was entered. The zero-or-more block over a choice does not: on the input
  \<open>b\<close> the block of \<open>('a' / 'b')*\<close> is entered after three instructions with the cursor at
  offset 0, and has returned to the bootstrap after 63 instructions with \<open>MatchFailed\<close>
  on top of V and the cursor at offset 1, behind the \<open>b\<close>. The choice block leaves the
  \<open>MatchFailed\<close> of each failed alternative on V (the option and repetition blocks pop the
  failure of their child, the choice block does not), and the repetition finds that value
  on top when its last iteration fails.\<close>

theorem zero_or_more_over_choice_moves_cursor:
  "map (\<lambda>n. map_option (\<lambda>s. (pc s, i_stack s, take 1 (v_stack s), pt (parser s)))
          (steps ascii_lib n ((run_init (new_vm ''f'' ''b'') prog_star_choice)
             \<lparr>parser := parser_on ascii_lib ''b''\<rparr>))) [3, 63]
   = [Some (21, [3], [],
            \<lparr>position = \<lparr>line = 1, col = 1, offset = 0\<rparr>, rn = 98, w = 1\<rparr>),
      Some (3, [], [VFailed],
            \<lparr>position = \<lparr>line = 1, col = 1, offset = 1\<rparr>, rn = 65533, w = 0\<rparr>)]"
  by code_simp

text \<open>C9. The one-or-more block leaves \<open>MatchFailed\<close> exactly when its child never matched,
  and the list of the children's values otherwise. Over a choice it does not: on the input
  \<open>b\<close> the block of \<open>('a' / 'b')+\<close> is entered after three instructions, its child returns
  to it after 29 instructions with the matched \<open>b\<close> on top of V, and after 63 instructions
  the block has returned to the bootstrap with \<open>MatchFailed\<close> on top of V, the list of the
  one match below it; the parse returns no value and a no-match error. The cause is the
  one of C3: the choice block leaves the \<open>MatchFailed\<close> of its failed alternatives on V.\<close>

theorem one_or_more_over_choice_fails:
  "map (\<lambda>n. map_option (\<lambda>s. (pc s, i_stack s, v_stack s))
          (steps ascii_lib n ((run_init (new_vm ''f'' ''b'') prog_plus_choice)
             \<lparr>parser := parser_on ascii_lib ''b''\<rparr>))) [3, 29, 63]
   = [Some (21, [3], []),
      Some (25, [3], [VBytes ''b'', VFailed, VFailed]),
      Some (3, [], [VFailed, VList [VBytes ''b''], VFailed])]
   \<and> map_option fst (Parse ascii_lib prog_plus_choice 100 ''f'' ''b'' [])
     = Some (RunOk VNil (Some
         [\<lparr>Inner = ErrFfp \<lparr>ffp_pos = \<lparr>line = 1, col = 1, offset = 1\<rparr>, ffp_ruleNmIx = 0,
                               ffp_rn = 65533, ffp_want = ''matcher''\<rparr>,
           pe_prefix = ''f:pos: rule A''\<rparr>]))"
  by code_simp

end
